theory Spec2Isabelle
  imports Main "HOL-Library.Sublist"
begin

section \<open>Strings and \<open>os.path\<close> on POSIX\<close>

text \<open>
  The tool is Python; paths are \<open>str\<close> values handled by \<open>os.path\<close> (posixpath) and
  \<open>pathlib\<close>. A \<open>str\<close> is a \<open>string\<close> here, \<open>s.startswith(t)\<close> is \<open>prefix t s\<close>,
  \<open>s.endswith(t)\<close> is \<open>suffix t s\<close>, and \<open>s.lstrip('/')\<close> drops the leading separators.
\<close>

fun split_on :: "char \<Rightarrow> string \<Rightarrow> string list" where
  "split_on c [] = [[]]"
| "split_on c (x # xs) =
     (if x = c then [] # split_on c xs
      else (case split_on c xs of
              [] \<Rightarrow> [[x]]
            | w # ws \<Rightarrow> (x # w) # ws))"

fun join_sep :: "string list \<Rightarrow> string" where
  "join_sep [] = []"
| "join_sep [x] = x"
| "join_sep (x # y # ys) = x @ CHR ''/'' # join_sep (y # ys)"

definition lstrip_sep :: "string \<Rightarrow> string" where
  "lstrip_sep s = dropWhile (\<lambda>c. c = CHR ''/'') s"

definition isabs :: "string \<Rightarrow> bool" where
  "isabs s = prefix ''/'' s"

text \<open>\<open>posixpath.join(a, b)\<close> for two arguments.\<close>

definition os_path_join :: "string \<Rightarrow> string \<Rightarrow> string" where
  "os_path_join a b =
     (if prefix ''/'' b then b
      else if a = [] \<or> suffix ''/'' a then a @ b
      else a @ ''/'' @ b)"

text \<open>
  \<open>posixpath.normpath\<close>: the loop over the components is \<open>norm_step\<close>, folded from the
  empty list; \<open>initial_slashes\<close> is 0, 1 or 2 as in the library.
\<close>

definition norm_step :: "nat \<Rightarrow> string list \<Rightarrow> string \<Rightarrow> string list" where
  "norm_step initial_slashes new_comps c =
     (if c = [] \<or> c = ''.'' then new_comps
      else if c \<noteq> ''..'' \<or> (initial_slashes = 0 \<and> new_comps = [])
              \<or> (new_comps \<noteq> [] \<and> last new_comps = ''..'')
      then new_comps @ [c]
      else if new_comps \<noteq> [] then butlast new_comps
      else new_comps)"

definition initial_slashes_of :: "string \<Rightarrow> nat" where
  "initial_slashes_of path =
     (if prefix ''/'' path
      then (if prefix ''//'' path \<and> \<not> prefix ''///'' path then 2 else 1)
      else 0)"

definition normpath :: "string \<Rightarrow> string" where
  "normpath path =
     (if path = [] then ''.''
      else
        let n = initial_slashes_of path;
            comps = foldl (norm_step n) [] (split_on CHR ''/'' path);
            p = replicate n CHR ''/'' @ join_sep comps
        in if p = [] then ''.'' else p)"

text \<open>\<open>posixpath.dirname\<close> and \<open>posixpath.basename\<close>: split at the last separator.\<close>

definition rsplit_sep :: "string \<Rightarrow> string \<times> string" where
  "rsplit_sep p =
     (let tl = rev (takeWhile (\<lambda>c. c \<noteq> CHR ''/'') (rev p))
      in (take (length p - length tl) p, tl))"

definition rstrip_sep :: "string \<Rightarrow> string" where
  "rstrip_sep s = rev (dropWhile (\<lambda>c. c = CHR ''/'') (rev s))"

definition dirname :: "string \<Rightarrow> string" where
  "dirname p =
     (let head = fst (rsplit_sep p)
      in if head \<noteq> [] \<and> \<not> list_all (\<lambda>c. c = CHR ''/'') head then rstrip_sep head else head)"

definition basename :: "string \<Rightarrow> string" where
  "basename p = snd (rsplit_sep p)"

text \<open>
  \<open>posixpath.splitext\<close>: the extension starts at the last dot of the last component,
  unless only dots precede it there.
\<close>

definition splitext :: "string \<Rightarrow> string \<times> string" where
  "splitext p =
     (let name = snd (rsplit_sep p);
          ext = rev (takeWhile (\<lambda>c. c \<noteq> CHR ''.'') (rev name));
          stem = take (length name - length ext - 1) name
      in if length ext < length name \<and> \<not> list_all (\<lambda>c. c = CHR ''.'') stem
         then (take (length p - length ext - 1) p, CHR ''.'' # ext)
         else (p, []))"

text \<open>\<open>str(n)\<close> for a non-negative integer.\<close>

definition digit_char :: "nat \<Rightarrow> char" where
  "digit_char d = char_of (48 + d)"

function str_nat :: "nat \<Rightarrow> string" where
  "str_nat n = (if n < 10 then [digit_char n] else str_nat (n div 10) @ [digit_char (n mod 10)])"
  by pat_completeness auto
termination
  by (relation "measure id") auto

declare str_nat.simps [simp del]

section \<open>Exceptions and the file system\<close>

text \<open>
  A Python exception is a value; a call that can raise returns \<open>exn + 'a\<close> with \<open>Inl\<close> the
  exception. \<open>OSError\<close> stands for the whole family (FileNotFoundError, IsADirectoryError,
  FileExistsError, shutil.SameFileError, ...), which the tool catches as one.
\<close>

datatype exn =
    ValueError string
  | OSError string
  | BadZipFile string
  | TarError string
  | RuntimeError string

text \<open>
  The content of a file is modelled by what it decodes to: plain bytes, a ZIP container
  (member names with their data, in archive order) or a TAR container (gzip-compressed or
  not; each member has a name, a type flag and its data).
\<close>

datatype tar_kind = REGTYPE | DIRTYPE | SYMTYPE | LNKTYPE | CHRTYPE | BLKTYPE | FIFOTYPE

datatype fdata =
    Raw string
  | ZipData "(string \<times> fdata) list"
  | TarData bool "(string \<times> tar_kind \<times> fdata) list"

datatype node = File fdata | Dir

type_synonym path = "string list"

text \<open>
  The world outside the process: the working directory, the symbolic links and the files
  and directories, each addressed by the list of components of its absolute path (the root
  directory is \<open>[]\<close>). Symbolic links are kept in a table of their own, which canonicalisation
  (\<open>Path.resolve\<close>) follows; the file operations below address \<open>nodes\<close> by the lexically
  normalised absolute path of the string they are given, so their results speak about the
  paths handed to the operating system. Where such a path runs through a symbolic link,
  the file the operating system reaches is the one \<open>path_resolve\<close> gives; the paths the tool
  hands to the file operations are canonical ones (results of \<open>_resolve_under_restriction\<close>),
  except for the member paths of an archive, which are joined to one.
\<close>

record world =
  cwd :: path
  links :: "path \<rightharpoonup> string"
  nodes :: "path \<rightharpoonup> node"

definition os_key :: "world \<Rightarrow> string \<Rightarrow> path" where
  "os_key w s = foldl (norm_step 1) (if isabs s then [] else cwd w) (split_on CHR ''/'' s)"

definition node_at :: "world \<Rightarrow> path \<Rightarrow> node option" where
  "node_at w k = (if k = [] then Some Dir else nodes w k)"

definition os_path_exists :: "world \<Rightarrow> string \<Rightarrow> bool" where
  "os_path_exists w s = (node_at w (os_key w s) \<noteq> None)"

definition os_path_isfile :: "world \<Rightarrow> string \<Rightarrow> bool" where
  "os_path_isfile w s = (case node_at w (os_key w s) of Some (File d) \<Rightarrow> True | _ \<Rightarrow> False)"

definition os_path_isdir :: "world \<Rightarrow> string \<Rightarrow> bool" where
  "os_path_isdir w s = (node_at w (os_key w s) = Some Dir)"

definition os_path_islink :: "world \<Rightarrow> string \<Rightarrow> bool" where
  "os_path_islink w s = (links w (os_key w s) \<noteq> None)"

text \<open>
  \<open>os.makedirs(s, exist_ok=True)\<close>: every missing directory on the way down is created; a
  regular file in the way is an \<open>OSError\<close>, and then nothing has been created.
\<close>

fun makedirs_from :: "(path \<rightharpoonup> node) \<Rightarrow> path \<Rightarrow> string list \<Rightarrow> exn + (path \<rightharpoonup> node)" where
  "makedirs_from ns cur [] = Inr ns"
| "makedirs_from ns cur (c # cs) =
     (case ns (cur @ [c]) of
        None \<Rightarrow> makedirs_from (ns(cur @ [c] \<mapsto> Dir)) (cur @ [c]) cs
      | Some Dir \<Rightarrow> makedirs_from ns (cur @ [c]) cs
      | Some (File d) \<Rightarrow> Inl (OSError ''FileExistsError''))"

definition os_makedirs :: "world \<Rightarrow> string \<Rightarrow> exn + world" where
  "os_makedirs w s =
     (case makedirs_from (nodes w) [] (os_key w s) of
        Inl e \<Rightarrow> Inl e
      | Inr ns \<Rightarrow> Inr (w\<lparr>nodes := ns\<rparr>))"

text \<open>
  \<open>with open(s, 'wb') as f: f.write(data)\<close>: the parent must be a directory and \<open>s\<close> itself
  must not be one; the file is created or overwritten.
\<close>

definition write_file :: "world \<Rightarrow> string \<Rightarrow> fdata \<Rightarrow> exn + world" where
  "write_file w s data =
     (let k = os_key w s in
      case node_at w k of
        Some Dir \<Rightarrow> Inl (OSError ''IsADirectoryError'')
      | _ \<Rightarrow>
          if node_at w (butlast k) = Some Dir
          then Inr (w\<lparr>nodes := (nodes w)(k \<mapsto> File data)\<rparr>)
          else Inl (OSError ''FileNotFoundError''))"

definition read_file :: "world \<Rightarrow> string \<Rightarrow> exn + fdata" where
  "read_file w s =
     (case node_at w (os_key w s) of
        Some (File d) \<Rightarrow> Inr d
      | Some Dir \<Rightarrow> Inl (OSError ''IsADirectoryError'')
      | None \<Rightarrow> Inl (OSError ''FileNotFoundError''))"

text \<open>\<open>os.unlink\<close> and \<open>os.replace\<close> (an atomic rename onto the destination).\<close>

definition os_unlink :: "world \<Rightarrow> string \<Rightarrow> exn + world" where
  "os_unlink w s =
     (let k = os_key w s in
      case node_at w k of
        Some (File d) \<Rightarrow> Inr (w\<lparr>nodes := (nodes w)(k := None)\<rparr>)
      | Some Dir \<Rightarrow> Inl (OSError ''IsADirectoryError'')
      | None \<Rightarrow> Inl (OSError ''FileNotFoundError''))"

definition os_replace :: "world \<Rightarrow> string \<Rightarrow> string \<Rightarrow> exn + world" where
  "os_replace w src dst =
     (let ks = os_key w src; kd = os_key w dst in
      case node_at w ks of
        None \<Rightarrow> Inl (OSError ''FileNotFoundError'')
      | Some Dir \<Rightarrow> Inl (OSError ''replace: source is a directory'')
      | Some (File d) \<Rightarrow>
          if node_at w kd = Some Dir then Inl (OSError ''IsADirectoryError'')
          else if node_at w (butlast kd) \<noteq> Some Dir then Inl (OSError ''FileNotFoundError'')
          else if ks = kd then Inr w
          else Inr (w\<lparr>nodes := (nodes w)(kd \<mapsto> File d, ks := None)\<rparr>))"

section \<open>pathlib\<close>

text \<open>
  A \<open>PurePosixPath\<close> is its root (empty, one separator or two) and its parts; parsing drops
  empty and \<open>.\<close> components and keeps \<open>..\<close>.
\<close>

type_synonym pure_path = "string \<times> string list"

definition Path :: "string \<Rightarrow> pure_path" where
  "Path s =
     ((if prefix ''/'' s then (if prefix ''//'' s \<and> \<not> prefix ''///'' s then ''//'' else ''/'') else []),
      filter (\<lambda>c. c \<noteq> [] \<and> c \<noteq> ''.'') (split_on CHR ''/'' s))"

definition path_str :: "pure_path \<Rightarrow> string" where
  "path_str p = (let s = fst p @ join_sep (snd p) in if s = [] then ''.'' else s)"

text \<open>\<open>p / s\<close>: an absolute right operand replaces the left one.\<close>

definition path_join :: "pure_path \<Rightarrow> string \<Rightarrow> pure_path" where
  "path_join p s = (let q = Path s in if fst q \<noteq> [] then q else (fst p, snd p @ snd q))"

definition relative_to :: "pure_path \<Rightarrow> pure_path \<Rightarrow> exn + pure_path" where
  "relative_to p other =
     (if fst p = fst other \<and> prefix (snd other) (snd p)
      then Inr ([], drop (length (snd other)) (snd p))
      else Inl (ValueError ''not in the subpath''))"

text \<open>
  \<open>Path.resolve()\<close> (non-strict): the components are walked from the root (from the working
  directory for a relative path); \<open>..\<close> steps to the parent of what has been resolved so far,
  a symbolic link is replaced by its target, and a component that does not exist is kept as
  it is. The walk follows at most \<open>MAXSYMLINKS\<close> links and reports a symlink loop after that
  (a \<open>RuntimeError\<close> in pathlib).
\<close>

definition MAXSYMLINKS :: nat where
  "MAXSYMLINKS = 40"

fun realpath_walk :: "nat \<Rightarrow> (path \<rightharpoonup> string) \<Rightarrow> path \<Rightarrow> string list \<Rightarrow> exn + path" where
  "realpath_walk fuel lk cur [] = Inr cur"
| "realpath_walk fuel lk cur (c # rest) =
     (if c = [] \<or> c = ''.'' then realpath_walk fuel lk cur rest
      else if c = ''..'' then realpath_walk fuel lk (butlast cur) rest
      else
        (case lk (cur @ [c]) of
           None \<Rightarrow> realpath_walk fuel lk (cur @ [c]) rest
         | Some target \<Rightarrow>
             (case fuel of
                0 \<Rightarrow> Inl (RuntimeError ''Symlink loop'')
              | Suc f \<Rightarrow>
                  realpath_walk f lk (if isabs target then [] else cur)
                    (split_on CHR ''/'' target @ rest))))"

definition path_resolve :: "world \<Rightarrow> pure_path \<Rightarrow> exn + pure_path" where
  "path_resolve w p =
     (case realpath_walk MAXSYMLINKS (links w) (if fst p = [] then cwd w else []) (snd p) of
        Inl e \<Rightarrow> Inl e
      | Inr comps \<Rightarrow> Inr (''/'', comps))"

section \<open>The tool: configuration, path confinement, display paths\<close>

record valves =
  root_restriction_directory :: string
  return_relative_paths :: bool
  spoof_directory_root :: string
  debug :: bool

text \<open>
  \<open>_resolve_under_restriction\<close>: the candidate is joined onto the resolved root, the join is
  resolved, and the result is accepted when its string starts with the root's string.
\<close>

definition resolve_under_restriction :: "valves \<Rightarrow> world \<Rightarrow> string \<Rightarrow> exn + string" where
  "resolve_under_restriction v w path =
     (case path_resolve w (Path (root_restriction_directory v)) of
        Inl e \<Rightarrow> Inl e
      | Inr base \<Rightarrow>
          (case path_resolve w (path_join base path) of
             Inl e \<Rightarrow> Inl e
           | Inr p \<Rightarrow>
               if \<not> prefix (path_str base) (path_str p)
               then Inl (ValueError (''Path escapes restriction root: '' @ path))
               else Inr (path_str p)))"

text \<open>
  \<open>_get_relative_path\<close>: only a \<open>ValueError\<close> (from \<open>relative_to\<close>) is caught; any other
  exception of the two \<open>resolve\<close> calls propagates.
\<close>

definition display_root_of :: "valves \<Rightarrow> string" where
  "display_root_of v =
     (if spoof_directory_root v \<noteq> [] then spoof_directory_root v else root_restriction_directory v)"

definition get_relative_path :: "valves \<Rightarrow> world \<Rightarrow> string \<Rightarrow> exn + string" where
  "get_relative_path v w absolute_path =
     (if \<not> return_relative_paths v then Inr absolute_path
      else
        (case path_resolve w (Path (root_restriction_directory v)) of
           Inl e \<Rightarrow> Inl e
         | Inr base \<Rightarrow>
             (case path_resolve w (Path (display_root_of v)) of
                Inl e \<Rightarrow> Inl e
              | Inr spoof_base \<Rightarrow>
                  (case relative_to (Path absolute_path) base of
                     Inl e \<Rightarrow> Inr absolute_path
                   | Inr rel \<Rightarrow>
                       if path_str spoof_base = path_str base then Inr (path_str rel)
                       else Inr (path_str (path_join (Path (display_root_of v)) (path_str rel)))))))"

text \<open>
  The two descriptions of "inside the root": by components, as \<open>Path.relative_to\<close> decides
  it, and by the spec's words (the string equals the root's string or continues it with a
  separator).
\<close>

definition inside_root :: "pure_path \<Rightarrow> pure_path \<Rightarrow> bool" where
  "inside_root base p = (fst p = fst base \<and> prefix (snd base) (snd p))"

definition spec_confined :: "string \<Rightarrow> string \<Rightarrow> bool" where
  "spec_confined base p = (p = base \<or> prefix (base @ ''/'') p)"

fun contains_str :: "string \<Rightarrow> string \<Rightarrow> bool" where
  "contains_str sub [] = (sub = [])"
| "contains_str sub (y # ys) = (prefix sub (y # ys) \<or> contains_str sub ys)"

definition clean_part :: "string \<Rightarrow> bool" where
  "clean_part c = (c \<noteq> [] \<and> c \<noteq> ''.'' \<and> CHR ''/'' \<notin> set c)"

section \<open>Result envelopes\<close>

datatype pyval =
    VStr string
  | VInt int
  | VBool bool
  | VList "string list"
  | VDict "(string \<times> pyval) list"

record result =
  ok :: bool
  action :: string
  subject_type :: string
  payload :: "(string \<times> pyval) list"

text \<open>
  \<open>_result\<close>: the keyword arguments follow the three fixed keys; in debug mode a
  \<open>debug_info\<close> entry is added, for which the root is resolved once more.
\<close>

definition mk_result ::
  "valves \<Rightarrow> world \<Rightarrow> bool \<Rightarrow> string \<Rightarrow> string \<Rightarrow> (string \<times> pyval) list \<Rightarrow> exn + result" where
  "mk_result v w ok' action' subject_type' kwargs =
     (if debug v then
        (case path_resolve w (Path (root_restriction_directory v)) of
           Inl e \<Rightarrow> Inl e
         | Inr actual_root \<Rightarrow>
             Inr \<lparr>ok = ok', action = action', subject_type = subject_type',
                  payload = kwargs @
                    [(''debug_info'', VDict
                       [(''actual_path'', VStr (path_str actual_root)),
                        (''display_path'', VStr (display_root_of v)),
                        (''is_spoofed'', VBool (display_root_of v \<noteq> path_str actual_root)),
                        (''spoof_directory_root'', VStr (spoof_directory_root v)),
                        (''root_restriction_directory'', VStr (root_restriction_directory v))])]\<rparr>)
      else Inr \<lparr>ok = ok', action = action', subject_type = subject_type', payload = kwargs\<rparr>)"

definition exn_str :: "exn \<Rightarrow> string" where
  "exn_str e = (case e of ValueError m \<Rightarrow> m | OSError m \<Rightarrow> m | BadZipFile m \<Rightarrow> m
                | TarError m \<Rightarrow> m | RuntimeError m \<Rightarrow> m)"

definition try_bind :: "exn + 'a \<Rightarrow> ('a \<Rightarrow> exn + 'b) \<Rightarrow> exn + 'b" where
  "try_bind m k = (case m of Inl e \<Rightarrow> Inl e | Inr x \<Rightarrow> k x)"

text \<open>\<open>base_dir if base_dir else "."\<close>\<close>

definition base_path_of :: "string option \<Rightarrow> string" where
  "base_path_of base_dir = (case base_dir of None \<Rightarrow> ''.'' | Some b \<Rightarrow> if b = [] then ''.'' else b)"

section \<open>Atomic writes\<close>

definition ensure_parent_dir :: "world \<Rightarrow> string \<Rightarrow> exn + world" where
  "ensure_parent_dir w file_path =
     (let parent_dir = dirname file_path
      in if parent_dir \<noteq> [] then os_makedirs w parent_dir else Inr w)"

text \<open>
  \<open>tempfile.mkstemp(dir=d)\<close>: the candidate names (the library's random sequence, a
  parameter here) are tried in turn; a name that exists is skipped, the first free one is
  created empty, and running out of candidates is a \<open>FileExistsError\<close>.
\<close>

fun mkstemp :: "world \<Rightarrow> string \<Rightarrow> string list \<Rightarrow> exn + (string \<times> world)" where
  "mkstemp w d [] = Inl (OSError ''No usable temporary file name found'')"
| "mkstemp w d (name # names) =
     (let file = os_path_join d name; k = os_key w file in
      if node_at w k \<noteq> None then mkstemp w d names
      else if node_at w (butlast k) \<noteq> Some Dir then Inl (OSError ''FileNotFoundError'')
      else Inr (file, w\<lparr>nodes := (nodes w)(k \<mapsto> File (Raw []))\<rparr>))"

text \<open>
  A step of \<open>_atomic_write\<close> can raise for reasons the world does not record (a full disk,
  permissions, an encoding error, a failure injected by a test). The fault says which step
  does: closing the descriptor, opening the temporary file, writing (after some characters
  have reached the file), closing the written file, or the final \<open>os.replace\<close>.
\<close>

datatype fault = NoFault | CloseFails | OpenFails | WriteFails nat | FlushFails | ReplaceFails

definition write_temp :: "fault \<Rightarrow> world \<Rightarrow> string \<Rightarrow> string \<Rightarrow> (world \<times> exn) + world" where
  "write_temp flt w temp_path content =
     (case flt of
        CloseFails \<Rightarrow> Inl (w, OSError ''close failed'')
      | OpenFails \<Rightarrow> Inl (w, OSError ''open failed'')
      | WriteFails n \<Rightarrow>
          (case write_file w temp_path (Raw (take n content)) of
             Inl e \<Rightarrow> Inl (w, e)
           | Inr w' \<Rightarrow> Inl (w', OSError ''write failed''))
      | _ \<Rightarrow>
          (case write_file w temp_path (Raw content) of
             Inl e \<Rightarrow> Inl (w, e)
           | Inr w' \<Rightarrow> if flt = FlushFails then Inl (w', OSError ''flush failed'') else Inr w'))"

text \<open>The handler's \<open>try: unlink(temp_path) except OSError: pass\<close>.\<close>

definition cleanup_temp :: "world \<Rightarrow> string \<Rightarrow> world" where
  "cleanup_temp w temp_path = (case os_unlink w temp_path of Inl e \<Rightarrow> w | Inr w' \<Rightarrow> w')"

text \<open>
  \<open>_atomic_write\<close> returns the worlds an observer can see, in order: the initial one, then
  the one after each step. The last is the world the call leaves behind.
\<close>

definition atomic_write ::
  "fault \<Rightarrow> string list \<Rightarrow> world \<Rightarrow> string \<Rightarrow> string \<Rightarrow> world list \<times> (exn + unit)" where
  "atomic_write flt names w file_path content =
     (case ensure_parent_dir w file_path of
        Inl e \<Rightarrow> ([w], Inl e)
      | Inr w1 \<Rightarrow>
          (case mkstemp w1 (dirname file_path) names of
             Inl e \<Rightarrow> ([w, w1], Inl e)
           | Inr (temp_path, w2) \<Rightarrow>
               (case write_temp flt w2 temp_path content of
                  Inl (w3, e) \<Rightarrow> ([w, w1, w2, w3, cleanup_temp w3 temp_path], Inl e)
                | Inr w3 \<Rightarrow>
                    (case (if flt = ReplaceFails then Inl (OSError ''replace failed'')
                           else os_replace w3 temp_path file_path) of
                       Inl e \<Rightarrow> ([w, w1, w2, w3, cleanup_temp w3 temp_path], Inl e)
                     | Inr w4 \<Rightarrow> ([w, w1, w2, w3, w4], Inr ())))))"

section \<open>Archives\<close>

definition getcwd :: "world \<Rightarrow> string" where
  "getcwd w = CHR ''/'' # join_sep (cwd w)"

definition abspath :: "world \<Rightarrow> string \<Rightarrow> string" where
  "abspath w p = normpath (if isabs p then p else os_path_join (getcwd w) p)"

definition sanitize_archive_path :: "world \<Rightarrow> string \<Rightarrow> string \<Rightarrow> exn + string" where
  "sanitize_archive_path w member_path output_dir =
     (let clean_path = normpath (lstrip_sep member_path) in
      if prefix ''..'' clean_path \<or> isabs clean_path
      then Inl (ValueError (''Unsafe archive member path: '' @ member_path))
      else
        let final_path = os_path_join output_dir clean_path in
        if \<not> prefix (abspath w output_dir) (abspath w final_path)
        then Inl (ValueError
               (''Archive member would extract outside target directory: '' @ member_path))
        else Inr final_path)"

text \<open>
  \<open>ZipFile.read(name)\<close> returns the data of the last entry of that name; a name taken from
  \<open>namelist()\<close> is always found.
\<close>

definition zip_read :: "(string \<times> fdata) list \<Rightarrow> string \<Rightarrow> exn + fdata" where
  "zip_read ms name =
     (case map_of (rev ms) name of
        None \<Rightarrow> Inl (RuntimeError ''KeyError'')
      | Some d \<Rightarrow> Inr d)"

text \<open>
  The two \<open>for\<close> loops of \<open>_decompress_archive\<close> share their shape: the body handles one
  member in the current world and either raises or goes on, with or without an entry for
  \<open>extracted_files\<close>. The loop returns the world it has reached, also when the body raises:
  what was written before the exception stays.
\<close>

fun extract_loop ::
  "(world \<Rightarrow> 'm \<Rightarrow> world \<times> (exn + string option)) \<Rightarrow> world \<Rightarrow> 'm list \<Rightarrow> string list
     \<Rightarrow> world \<times> (exn + string list)" where
  "extract_loop body w [] extracted_files = (w, Inr extracted_files)"
| "extract_loop body w (member # rest) extracted_files =
     (case body w member of
        (w', Inl e) \<Rightarrow> (w', Inl e)
      | (w', Inr None) \<Rightarrow> extract_loop body w' rest extracted_files
      | (w', Inr (Some r)) \<Rightarrow> extract_loop body w' rest (extracted_files @ [r]))"

text \<open>The body of the ZIP loop: every name of \<open>namelist()\<close> is read and written as a file.\<close>

definition extract_zip_member ::
  "valves \<Rightarrow> (string \<times> fdata) list \<Rightarrow> string \<Rightarrow> world \<Rightarrow> string
     \<Rightarrow> world \<times> (exn + string option)" where
  "extract_zip_member v ms output_path w member =
     (case sanitize_archive_path w member output_path of
        Inl e \<Rightarrow> (w, Inl e)
      | Inr safe_path \<Rightarrow>
          (case zip_read ms member of
             Inl e \<Rightarrow> (w, Inl e)
           | Inr member_data \<Rightarrow>
               (case os_makedirs w (dirname safe_path) of
                  Inl e \<Rightarrow> (w, Inl e)
                | Inr w1 \<Rightarrow>
                    (case write_file w1 safe_path member_data of
                       Inl e \<Rightarrow> (w1, Inl e)
                     | Inr w2 \<Rightarrow>
                         (case get_relative_path v w2 safe_path of
                            Inl e \<Rightarrow> (w2, Inl e)
                          | Inr r \<Rightarrow> (w2, Inr (Some r)))))))"

text \<open>
  The body of the TAR loop: a regular file is written, a directory is created, any other
  member is passed over (after its name was sanitized).
\<close>

definition extract_tar_member ::
  "valves \<Rightarrow> string \<Rightarrow> world \<Rightarrow> string \<times> tar_kind \<times> fdata \<Rightarrow> world \<times> (exn + string option)" where
  "extract_tar_member v output_path w member =
     (case member of (name, kind, member_data) \<Rightarrow>
        (case sanitize_archive_path w name output_path of
           Inl e \<Rightarrow> (w, Inl e)
         | Inr safe_path \<Rightarrow>
             if kind = REGTYPE then
               (case os_makedirs w (dirname safe_path) of
                  Inl e \<Rightarrow> (w, Inl e)
                | Inr w1 \<Rightarrow>
                    (case write_file w1 safe_path member_data of
                       Inl e \<Rightarrow> (w1, Inl e)
                     | Inr w2 \<Rightarrow>
                         (case get_relative_path v w2 safe_path of
                            Inl e \<Rightarrow> (w2, Inl e)
                          | Inr r \<Rightarrow> (w2, Inr (Some r)))))
             else if kind = DIRTYPE then
               (case os_makedirs w safe_path of
                  Inl e \<Rightarrow> (w, Inl e)
                | Inr w1 \<Rightarrow> (w1, Inr None))
             else (w, Inr None)))"

definition decompress_archive ::
  "valves \<Rightarrow> world \<Rightarrow> string \<Rightarrow> string \<Rightarrow> string \<Rightarrow> world \<times> (exn + string list)" where
  "decompress_archive v w file_path output_path file_name =
     (if suffix ''.zip'' file_name then
        (case read_file w file_path of
           Inl e \<Rightarrow> (w, Inl e)
         | Inr (ZipData ms) \<Rightarrow>
             extract_loop (extract_zip_member v ms output_path) w (map fst ms) []
         | Inr _ \<Rightarrow> (w, Inl (BadZipFile ''File is not a zip file'')))
      else if suffix ''.tar'' file_name \<or> suffix ''.tar.gz'' file_name \<or> suffix ''.tgz'' file_name
      then
        (case read_file w file_path of
           Inl e \<Rightarrow> (w, Inl e)
         | Inr (TarData gz ms) \<Rightarrow>
             if (suffix ''.tar.gz'' file_name \<or> suffix ''.tgz'' file_name) \<and> \<not> gz
             then (w, Inl (TarError ''not a gzip file''))
             else extract_loop (extract_tar_member v output_path) w ms []
         | Inr _ \<Rightarrow> (w, Inl (TarError ''file could not be opened successfully'')))
      else (w, Inl (ValueError ''Unsupported archive format'')))"

text \<open>
  \<open>decompress_file\<close>: the body of the \<open>try\<close> block, then the \<open>except\<close> clauses. An
  exception that no clause catches leaves the call as it is.
\<close>

definition decompress_file_try ::
  "valves \<Rightarrow> world \<Rightarrow> string \<Rightarrow> string \<Rightarrow> string option \<Rightarrow> world \<times> (exn + result)" where
  "decompress_file_try v w file_name output_directory base_dir =
     (let base_path = base_path_of base_dir in
      case resolve_under_restriction v w (os_path_join base_path file_name) of
        Inl e \<Rightarrow> (w, Inl e)
      | Inr file_path \<Rightarrow>
          (case resolve_under_restriction v w (os_path_join base_path output_directory) of
             Inl e \<Rightarrow> (w, Inl e)
           | Inr output_path \<Rightarrow>
               if \<not> os_path_exists w file_path then
                 (w, try_bind (get_relative_path v w file_path) (\<lambda>p.
                       mk_result v w False ''decompress'' ''file''
                         [(''error'', VStr ''Archive file does not exist''), (''path'', VStr p)]))
               else if \<not> os_path_isfile w file_path then
                 (w, mk_result v w False ''decompress'' ''file''
                       [(''error'', VStr ''Archive path is not a file'')])
               else if os_path_islink w file_path then
                 (w, mk_result v w False ''decompress'' ''file''
                       [(''error'', VStr ''Cannot decompress symlinks'')])
               else
                 (case ensure_parent_dir w output_path of
                    Inl e \<Rightarrow> (w, Inl e)
                  | Inr w1 \<Rightarrow>
                      (case os_makedirs w1 output_path of
                         Inl e \<Rightarrow> (w1, Inl e)
                       | Inr w2 \<Rightarrow>
                           (case decompress_archive v w2 file_path output_path file_name of
                              (w3, Inl e) \<Rightarrow> (w3, Inl e)
                            | (w3, Inr extracted_files) \<Rightarrow>
                                (w3, try_bind (get_relative_path v w3 output_path) (\<lambda>out.
                                       mk_result v w3 True ''decompress'' ''file''
                                         [(''message'', VStr ''Decompressed successfully''),
                                          (''output'', VStr out),
                                          (''extracted_files'', VList extracted_files),
                                          (''count'', VInt (int (length extracted_files)))])))))))"

definition decompress_file_except :: "valves \<Rightarrow> world \<Rightarrow> exn \<Rightarrow> exn + result" where
  "decompress_file_except v w e =
     (case e of
        ValueError m \<Rightarrow> mk_result v w False ''decompress'' ''file'' [(''error'', VStr m)]
      | BadZipFile m \<Rightarrow>
          mk_result v w False ''decompress'' ''file'' [(''error'', VStr (''Archive error: '' @ m))]
      | TarError m \<Rightarrow>
          mk_result v w False ''decompress'' ''file'' [(''error'', VStr (''Archive error: '' @ m))]
      | OSError m \<Rightarrow>
          mk_result v w False ''decompress'' ''file''
            [(''error'', VStr (''Failed to decompress file: '' @ m))]
      | RuntimeError m \<Rightarrow> Inl e)"

definition decompress_file ::
  "valves \<Rightarrow> world \<Rightarrow> string \<Rightarrow> string \<Rightarrow> string option \<Rightarrow> world \<times> (exn + result)" where
  "decompress_file v w file_name output_directory base_dir =
     (case decompress_file_try v w file_name output_directory base_dir of
        (w', Inl e) \<Rightarrow> (w', decompress_file_except v w' e)
      | (w', Inr r) \<Rightarrow> (w', Inr r))"

text \<open>
  The three compression helpers. Opening the output for writing creates or truncates it;
  the source is read after that. \<open>TarFile.add\<close> skips the archive's own file.
\<close>

definition compress_zip :: "world \<Rightarrow> string \<Rightarrow> string \<Rightarrow> world \<times> (exn + unit)" where
  "compress_zip w file_path output_path =
     (case write_file w output_path (ZipData []) of
        Inl e \<Rightarrow> (w, Inl e)
      | Inr w1 \<Rightarrow>
          (case read_file w1 file_path of
             Inl e \<Rightarrow> (w1, Inl e)
           | Inr d \<Rightarrow>
               (case write_file w1 output_path (ZipData [(basename file_path, d)]) of
                  Inl e \<Rightarrow> (w1, Inl e)
                | Inr w2 \<Rightarrow> (w2, Inr ()))))"

definition compress_tar_mode :: "bool \<Rightarrow> world \<Rightarrow> string \<Rightarrow> string \<Rightarrow> world \<times> (exn + unit)" where
  "compress_tar_mode gz w file_path output_path =
     (case write_file w output_path (TarData gz []) of
        Inl e \<Rightarrow> (w, Inl e)
      | Inr w1 \<Rightarrow>
          if abspath w1 file_path = abspath w1 output_path then (w1, Inr ())
          else
            (case read_file w1 file_path of
               Inl e \<Rightarrow> (w1, Inl e)
             | Inr d \<Rightarrow>
                 (case write_file w1 output_path (TarData gz [(basename file_path, REGTYPE, d)]) of
                    Inl e \<Rightarrow> (w1, Inl e)
                  | Inr w2 \<Rightarrow> (w2, Inr ()))))"

definition compress_tar :: "world \<Rightarrow> string \<Rightarrow> string \<Rightarrow> world \<times> (exn + unit)" where
  "compress_tar = compress_tar_mode False"

definition compress_gztar :: "world \<Rightarrow> string \<Rightarrow> string \<Rightarrow> world \<times> (exn + unit)" where
  "compress_gztar = compress_tar_mode True"

definition compress_file_try ::
  "valves \<Rightarrow> world \<Rightarrow> string \<Rightarrow> string \<Rightarrow> string \<Rightarrow> string option \<Rightarrow> world \<times> (exn + result)" where
  "compress_file_try v w file_name output_filename format base_dir =
     (let base_path = base_path_of base_dir in
      case resolve_under_restriction v w (os_path_join base_path file_name) of
        Inl e \<Rightarrow> (w, Inl e)
      | Inr file_path \<Rightarrow>
          (case resolve_under_restriction v w (os_path_join base_path output_filename) of
             Inl e \<Rightarrow> (w, Inl e)
           | Inr output_path \<Rightarrow>
               if \<not> os_path_exists w file_path then
                 (w, try_bind (get_relative_path v w file_path) (\<lambda>p.
                       mk_result v w False ''compress'' ''file''
                         [(''error'', VStr ''Source file does not exist''), (''path'', VStr p)]))
               else if \<not> os_path_isfile w file_path then
                 (w, mk_result v w False ''compress'' ''file''
                       [(''error'', VStr ''Source path is not a file'')])
               else if os_path_islink w file_path then
                 (w, mk_result v w False ''compress'' ''file''
                       [(''error'', VStr ''Cannot compress symlinks'')])
               else
                 (case ensure_parent_dir w output_path of
                    Inl e \<Rightarrow> (w, Inl e)
                  | Inr w1 \<Rightarrow>
                      if format \<noteq> ''zip'' \<and> format \<noteq> ''tar'' \<and> format \<noteq> ''gztar'' then
                        (w1, mk_result v w1 False ''compress'' ''file''
                               [(''error'', VStr (''Unsupported compression format: '' @ format))])
                      else
                        (case (if format = ''zip'' then compress_zip w1 file_path output_path
                               else if format = ''tar'' then compress_tar w1 file_path output_path
                               else compress_gztar w1 file_path output_path) of
                           (w2, Inl e) \<Rightarrow> (w2, Inl e)
                         | (w2, Inr u) \<Rightarrow>
                             (w2, try_bind (get_relative_path v w2 output_path) (\<lambda>out.
                                    mk_result v w2 True ''compress'' ''file''
                                      [(''message'', VStr ''Compressed successfully''),
                                       (''output'', VStr out),
                                       (''format'', VStr format)]))))))"

definition compress_file_except :: "valves \<Rightarrow> world \<Rightarrow> exn \<Rightarrow> exn + result" where
  "compress_file_except v w e =
     (case e of
        ValueError m \<Rightarrow> mk_result v w False ''compress'' ''file'' [(''error'', VStr m)]
      | BadZipFile m \<Rightarrow>
          mk_result v w False ''compress'' ''file'' [(''error'', VStr (''Compression error: '' @ m))]
      | TarError m \<Rightarrow>
          mk_result v w False ''compress'' ''file'' [(''error'', VStr (''Compression error: '' @ m))]
      | OSError m \<Rightarrow>
          mk_result v w False ''compress'' ''file''
            [(''error'', VStr (''Failed to compress file: '' @ m))]
      | RuntimeError m \<Rightarrow> Inl e)"

definition compress_file ::
  "valves \<Rightarrow> world \<Rightarrow> string \<Rightarrow> string \<Rightarrow> string \<Rightarrow> string option \<Rightarrow> world \<times> (exn + result)" where
  "compress_file v w file_name output_filename format base_dir =
     (case compress_file_try v w file_name output_filename format base_dir of
        (w', Inl e) \<Rightarrow> (w', compress_file_except v w' e)
      | (w', Inr r) \<Rightarrow> (w', Inr r))"

section \<open>Versions\<close>

text \<open>
  \<open>self.versions\<close> is a \<open>defaultdict(list)\<close> keyed by the resolved path: a total function
  whose value is \<open>[]\<close> where nothing was saved. \<open>shutil.copy2\<close> copies into a destination that
  is a directory, refuses to copy a file onto itself, and otherwise creates or overwrites
  the destination (the metadata it also copies is not part of the world).
\<close>

type_synonym versions = "string \<Rightarrow> string list"

definition copy2 :: "world \<Rightarrow> string \<Rightarrow> string \<Rightarrow> exn + world" where
  "copy2 w src dst =
     (let dst' = (if os_path_isdir w dst then os_path_join dst (basename src) else dst) in
      if os_key w src = os_key w dst' \<and> os_path_exists w src then Inl (OSError ''SameFileError'')
      else
        (case read_file w src of
           Inl e \<Rightarrow> Inl e
         | Inr d \<Rightarrow> write_file w dst' d))"

definition version_name_of :: "string \<Rightarrow> nat \<Rightarrow> string \<Rightarrow> string" where
  "version_name_of file_name version_index timestamp =
     (let (base_name, ext) = splitext file_name
      in base_name @ ''_v'' @ str_nat version_index @ ''_'' @ timestamp @ ext)"

definition save_file_version_try ::
  "valves \<Rightarrow> versions \<Rightarrow> world \<Rightarrow> string \<Rightarrow> string \<Rightarrow> string option
     \<Rightarrow> versions \<times> world \<times> (exn + result)" where
  "save_file_version_try v vs w timestamp file_name base_dir =
     (let base_path = base_path_of base_dir in
      case resolve_under_restriction v w (os_path_join base_path file_name) of
        Inl e \<Rightarrow> (vs, w, Inl e)
      | Inr file_path \<Rightarrow>
          if \<not> os_path_exists w file_path then
            (vs, w, try_bind (get_relative_path v w file_path) (\<lambda>p.
                      mk_result v w False ''version_save'' ''file''
                        [(''error'', VStr ''File does not exist''), (''path'', VStr p)]))
          else if \<not> os_path_isfile w file_path then
            (vs, w, mk_result v w False ''version_save'' ''file''
                      [(''error'', VStr ''Path is not a file'')])
          else if os_path_islink w file_path then
            (vs, w, mk_result v w False ''version_save'' ''file''
                      [(''error'', VStr ''Cannot version symlinks'')])
          else
            (let version_key = file_path;
                 version_index = length (vs version_key) + 1;
                 version_name = version_name_of file_name version_index timestamp in
             case resolve_under_restriction v w (os_path_join base_path version_name) of
               Inl e \<Rightarrow> (vs, w, Inl e)
             | Inr version_path \<Rightarrow>
                 (case copy2 w file_path version_path of
                    Inl e \<Rightarrow> (vs, w, Inl e)
                  | Inr w1 \<Rightarrow>
                      (vs(version_key := vs version_key @ [version_path]), w1,
                       try_bind (get_relative_path v w1 version_path) (\<lambda>vp.
                       try_bind (get_relative_path v w1 file_path) (\<lambda>orig.
                         mk_result v w1 True ''version_save'' ''file''
                           [(''message'', VStr ''Version saved''),
                            (''version'', VInt (int version_index)),
                            (''version_path'', VStr vp),
                            (''original_path'', VStr orig)]))))))"

definition save_file_version_except :: "valves \<Rightarrow> world \<Rightarrow> exn \<Rightarrow> exn + result" where
  "save_file_version_except v w e =
     (case e of
        ValueError m \<Rightarrow> mk_result v w False ''version_save'' ''file'' [(''error'', VStr m)]
      | OSError m \<Rightarrow>
          mk_result v w False ''version_save'' ''file''
            [(''error'', VStr (''Failed to save version: '' @ m))]
      | _ \<Rightarrow> Inl e)"

definition save_file_version ::
  "valves \<Rightarrow> versions \<Rightarrow> world \<Rightarrow> string \<Rightarrow> string \<Rightarrow> string option
     \<Rightarrow> versions \<times> world \<times> (exn + result)" where
  "save_file_version v vs w timestamp file_name base_dir =
     (case save_file_version_try v vs w timestamp file_name base_dir of
        (vs', w', Inl e) \<Rightarrow> (vs', w', save_file_version_except v w' e)
      | (vs', w', Inr r) \<Rightarrow> (vs', w', Inr r))"




text \<open>
  A component that \<open>normpath\<close> keeps as it is, and the components \<open>normpath\<close> leaves of an
  archive member's name once its leading separators are stripped.
\<close>

definition normal_part :: "string \<Rightarrow> bool" where
  "normal_part c = (c \<noteq> [] \<and> c \<noteq> ''.'' \<and> c \<noteq> ''..'' \<and> CHR ''/'' \<notin> set c)"

definition member_parts :: "string \<Rightarrow> string list" where
  "member_parts m = foldl (norm_step 0) [] (split_on CHR ''/'' (lstrip_sep m))"

text \<open>
  An outcome is a failure when it is an exception or an envelope with \<open>ok = False\<close>.
\<close>

definition failed :: "exn + result \<Rightarrow> bool" where
  "failed r = (case r of Inl e \<Rightarrow> True | Inr res \<Rightarrow> \<not> ok res)"

text \<open>All the directories on the way to \<open>k\<close>, and \<open>k\<close> itself, exist.\<close>

definition chain :: "world \<Rightarrow> path \<Rightarrow> bool" where
  "chain w k = list_all (\<lambda>i. node_at w (take i k) = Some Dir) [0 ..< Suc (length k)]"

text \<open>
  \<open>decompress_file\<close> gets as far as the extraction: both paths resolve, the archive is a
  regular file and no link, and the output directory has been created, which leaves the
  world \<open>w2\<close>.
\<close>

definition reaches_extraction ::
  "valves \<Rightarrow> world \<Rightarrow> string \<Rightarrow> string \<Rightarrow> string option \<Rightarrow> string \<Rightarrow> string \<Rightarrow> world \<Rightarrow> bool" where
  "reaches_extraction v w file_name output_directory base_dir file_path output_path w2 =
     (resolve_under_restriction v w (os_path_join (base_path_of base_dir) file_name) = Inr file_path
      \<and> resolve_under_restriction v w (os_path_join (base_path_of base_dir) output_directory)
          = Inr output_path
      \<and> os_path_exists w file_path \<and> os_path_isfile w file_path \<and> \<not> os_path_islink w file_path
      \<and> (\<exists>w1. ensure_parent_dir w output_path = Inr w1 \<and> os_makedirs w1 output_path = Inr w2))"

text \<open>
  What one step of an extraction into the directory \<open>K\<close> may do to the world: the working
  directory and the links stay, \<open>K\<close> and the directories above it stay directories, nothing
  outside \<open>K\<close> changes, and nothing that exists disappears.
\<close>

definition extraction_frame :: "path \<Rightarrow> world \<Rightarrow> world \<Rightarrow> bool" where
  "extraction_frame K w w' =
     (cwd w' = cwd w \<and> links w' = links w \<and> chain w' K
      \<and> (\<forall>k. \<not> prefix K k \<longrightarrow> nodes w' k = nodes w k)
      \<and> (\<forall>k. nodes w k \<noteq> None \<longrightarrow> nodes w' k \<noteq> None))"

text \<open>
  An extracted member is on disk under the output directory: its sanitized path names a
  node of the world \<open>w'\<close>, and that path lies under the output directory.
\<close>

definition on_disk_under :: "world \<Rightarrow> string \<Rightarrow> world \<Rightarrow> string \<Rightarrow> bool" where
  "on_disk_under w output_path w' name =
     (case sanitize_archive_path w name output_path of
        Inl e \<Rightarrow> False
      | Inr safe_path \<Rightarrow>
          node_at w' (os_key w safe_path) \<noteq> None
          \<and> prefix (os_key w output_path) (os_key w safe_path))"

section \<open>Example worlds\<close>

text \<open>
  The fixtures of the concrete runs below: a tool rooted at \<open>/r\<close>, and a world in which \<open>/r\<close>
  holds an unrelated file and a ZIP archive whose second member tries to leave the output
  directory.
\<close>

definition example_valves :: valves where
  "example_valves =
     \<lparr>root_restriction_directory = ''/r'', return_relative_paths = True,
        spoof_directory_root = [], debug = False\<rparr>"

definition zip_slip_archive :: fdata where
  "zip_slip_archive = ZipData [(''ok.txt'', Raw ''a''), (''../evil.txt'', Raw ''x'')]"

definition zip_slip_world :: world where
  "zip_slip_world =
     \<lparr>cwd = [], links = Map.empty,
        nodes = [[''r''] \<mapsto> Dir,
                 [''r'', ''keep.txt''] \<mapsto> File (Raw ''k''),
                 [''r'', ''evil.zip''] \<mapsto> File zip_slip_archive]\<rparr>"

text \<open>The same for a TAR archive with a directory, a file, a symbolic link and an escape.\<close>

definition tar_slip_archive :: fdata where
  "tar_slip_archive =
     TarData False
       [(''d'', DIRTYPE, Raw []), (''d/ok.txt'', REGTYPE, Raw ''a''),
        (''lnk'', SYMTYPE, Raw []), (''../evil.txt'', REGTYPE, Raw ''x'')]"

definition tar_slip_world :: world where
  "tar_slip_world =
     \<lparr>cwd = [], links = Map.empty,
        nodes = [[''r''] \<mapsto> Dir,
                 [''r'', ''evil.tar''] \<mapsto> File tar_slip_archive]\<rparr>"

text \<open>
  The worlds those two archives lead to when extracted into \<open>/r/out\<close>: after the output
  directory was created, and after the members before the escaping one were extracted.
\<close>

definition zip_slip_started :: world where
  "zip_slip_started = zip_slip_world\<lparr>nodes := (nodes zip_slip_world)([''r'', ''out''] \<mapsto> Dir)\<rparr>"

definition zip_slip_partial :: world where
  "zip_slip_partial =
     zip_slip_started\<lparr>nodes := (nodes zip_slip_started)
        ([''r'', ''out'', ''ok.txt''] \<mapsto> File (Raw ''a''))\<rparr>"

definition tar_slip_started :: world where
  "tar_slip_started = tar_slip_world\<lparr>nodes := (nodes tar_slip_world)([''r'', ''out''] \<mapsto> Dir)\<rparr>"

definition tar_slip_partial :: world where
  "tar_slip_partial =
     tar_slip_started\<lparr>nodes := (nodes tar_slip_started)
        ([''r'', ''out'', ''d''] \<mapsto> Dir,
         [''r'', ''out'', ''d'', ''ok.txt''] \<mapsto> File (Raw ''a''))\<rparr>"

text \<open>
  An archive that lists a directory before the file inside it, as archivers usually write
  them, once as a ZIP container and once as a TAR container, each in a world where it lies
  under \<open>/r\<close>.
\<close>

definition zip_dirs_archive :: fdata where
  "zip_dirs_archive = ZipData [(''sub/'', Raw []), (''sub/a.txt'', Raw ''hi'')]"

definition zip_dirs_world :: world where
  "zip_dirs_world =
     \<lparr>cwd = [], links = Map.empty,
        nodes = [[''r''] \<mapsto> Dir, [''r'', ''pkg.zip''] \<mapsto> File zip_dirs_archive]\<rparr>"

definition tar_dirs_archive :: fdata where
  "tar_dirs_archive =
     TarData False [(''sub'', DIRTYPE, Raw []), (''sub/a.txt'', REGTYPE, Raw ''hi'')]"

definition tar_dirs_world :: world where
  "tar_dirs_world =
     \<lparr>cwd = [], links = Map.empty,
        nodes = [[''r''] \<mapsto> Dir, [''r'', ''pkg.tar''] \<mapsto> File tar_dirs_archive]\<rparr>"

text \<open>
  A world in which the output directory \<open>/r/out\<close> already holds a symbolic link to \<open>/tmp\<close>, and
  an archive with a member that goes through that link.
\<close>

definition link_slip_archive :: fdata where
  "link_slip_archive = ZipData [(''link/x.txt'', Raw ''x''), (''../evil.txt'', Raw ''y'')]"

definition link_slip_world :: world where
  "link_slip_world =
     \<lparr>cwd = [], links = [[''r'', ''out'', ''link''] \<mapsto> ''/tmp''],
        nodes = [[''r''] \<mapsto> Dir, [''r'', ''out''] \<mapsto> Dir, [''tmp''] \<mapsto> Dir,
                 [''r'', ''evil.zip''] \<mapsto> File link_slip_archive]\<rparr>"



section \<open>Lemmas on strings and paths\<close>

lemma join_sep_Cons: "ys \<noteq> [] \<Longrightarrow> join_sep (x # ys) = x @ CHR ''/'' # join_sep ys"
  by (cases ys) auto

lemma join_sep_append:
  "join_sep (xs @ ys) =
     (if xs = [] then join_sep ys else if ys = [] then join_sep xs
      else join_sep xs @ CHR ''/'' # join_sep ys)"
  by (induction xs rule: join_sep.induct) (auto simp: join_sep_Cons)

lemma prefix_join_sep: "prefix xs ys \<Longrightarrow> prefix (join_sep xs) (join_sep ys)"
  by (auto simp: prefix_def join_sep_append)

lemma split_on_nonempty: "split_on c s \<noteq> []"
  by (induction s) (auto split: list.splits)

lemma split_on_no_sep: "x \<in> set (split_on c s) \<Longrightarrow> c \<notin> set x"
  by (induction s arbitrary: x) (auto split: list.splits if_splits)

lemma split_on_free: "c \<notin> set s \<Longrightarrow> split_on c s = [s]"
  by (induction s) auto

lemma split_on_append_sep: "c \<notin> set a \<Longrightarrow> split_on c (a @ c # b) = a # split_on c b"
  by (induction a) auto

lemma split_on_join_sep:
  "ps \<noteq> [] \<Longrightarrow> (\<forall>p \<in> set ps. CHR ''/'' \<notin> set p) \<Longrightarrow> split_on CHR ''/'' (join_sep ps) = ps"
  by (induction ps rule: join_sep.induct) (auto simp: split_on_free split_on_append_sep)

lemma Path_parts_clean: "c \<in> set (snd (Path s)) \<Longrightarrow> clean_part c"
  by (auto simp: Path_def clean_part_def dest: split_on_no_sep)

lemma join_sep_clean_not_abs:
  "ps \<noteq> [] \<Longrightarrow> (\<forall>p \<in> set ps. clean_part p) \<Longrightarrow> \<not> prefix ''/'' (join_sep ps) \<and> join_sep ps \<noteq> []"
proof -
  assume ne: "ps \<noteq> []" and cl: "\<forall>p \<in> set ps. clean_part p"
  then obtain x xs where ps: "ps = x # xs" by (cases ps) auto
  with cl obtain a as where x: "x = a # as" "a \<noteq> CHR ''/''"
    by (cases x) (auto simp: clean_part_def)
  have "join_sep ps = a # as @ (if xs = [] then [] else CHR ''/'' # join_sep xs)"
    using ps x by (cases xs) auto
  then show ?thesis using x by (auto simp: prefix_def)
qed

lemma Path_path_str_rel:
  assumes "\<forall>p \<in> set ps. clean_part p"
  shows "Path (path_str ([], ps)) = ([], ps)"
proof (cases "ps = []")
  case True
  then show ?thesis by (simp add: path_str_def Path_def)
next
  case False
  have s: "split_on CHR ''/'' (join_sep ps) = ps"
    using False assms by (intro split_on_join_sep) (auto simp: clean_part_def)
  have f: "filter (\<lambda>c. c \<noteq> [] \<and> c \<noteq> ''.'') ps = ps"
    using assms by (auto simp: clean_part_def filter_id_conv)
  show ?thesis
    using join_sep_clean_not_abs[OF False assms] s f
    by (simp add: path_str_def Path_def)
qed

lemma path_resolve_root: "path_resolve w q = Inr p \<Longrightarrow> fst p = ''/''"
  by (auto simp: path_resolve_def split: sum.splits)

lemma path_str_abs: "path_str (''/'', ps) = CHR ''/'' # join_sep ps"
  by (simp add: path_str_def)

lemma inside_root_prefix_str:
  "fst base = ''/'' \<Longrightarrow> inside_root base p \<Longrightarrow> prefix (path_str base) (path_str p)"
  by (cases base; cases p) (auto simp: inside_root_def path_str_abs prefix_join_sep)

lemma path_join_abs: "isabs s \<Longrightarrow> path_join b s = Path s"
  by (auto simp: path_join_def Path_def isabs_def Let_def)

section \<open>Path confinement\<close>

text \<open>
  Claim C1 (the code differs). The confinement check is \<open>str(p).startswith(str(base))\<close>,
  with no separator boundary. With the root \<open>/srv/data\<close> and no symbolic link anywhere, the
  candidate \<open>../data2/secret.txt\<close> resolves to \<open>/srv/data2/secret.txt\<close>, a file of a sibling
  directory whose name continues the root's, and \<open>_resolve_under_restriction\<close> returns it
  instead of raising: the result is neither the root nor a continuation of it past a
  separator (\<open>spec_confined\<close>), and it is not inside the root by components either.
\<close>

theorem sibling_prefix_escapes_confinement:
  "resolve_under_restriction
     \<lparr>root_restriction_directory = ''/srv/data'', return_relative_paths = True,
        spoof_directory_root = [], debug = False\<rparr>
     \<lparr>cwd = [], links = Map.empty, nodes = Map.empty\<rparr>
     ''../data2/secret.txt'' = Inr ''/srv/data2/secret.txt''
   \<and> \<not> spec_confined ''/srv/data'' ''/srv/data2/secret.txt''
   \<and> \<not> inside_root (Path ''/srv/data'') (Path ''/srv/data2/secret.txt'')"
  by (simp add: resolve_under_restriction_def path_resolve_def Path_def path_join_def
      path_str_def MAXSYMLINKS_def spec_confined_def inside_root_def)

text \<open>
  Claim C9. An absolute candidate replaces the root in the pathlib join, so what is checked
  is the candidate's own canonical form: when that lies inside the canonical root (the
  root's components are a prefix of its components) the call returns it, and the escape
  error is raised only for a canonical form outside the root.
\<close>

theorem absolute_candidate_inside_root_accepted:
  assumes "isabs path"
    and "path_resolve w (Path (root_restriction_directory v)) = Inr base"
    and "path_resolve w (Path path) = Inr p"
  shows "path_join base path = Path path
     \<and> (inside_root base p \<longrightarrow> resolve_under_restriction v w path = Inr (path_str p))
     \<and> ((\<exists>m. resolve_under_restriction v w path = Inl (ValueError m)) \<longrightarrow> \<not> inside_root base p)"
proof -
  have j: "path_join base path = Path path" using assms(1) by (rule path_join_abs)
  have r: "fst base = ''/''" using assms(2) by (rule path_resolve_root)
  have a: "inside_root base p \<Longrightarrow> resolve_under_restriction v w path = Inr (path_str p)"
    using assms(2,3) j r by (simp add: resolve_under_restriction_def inside_root_prefix_str)
  show ?thesis using j a by auto
qed

theorem absolute_candidate_inside_root_accepted_witness:
  "isabs ''/srv/data/notes/a.txt''
   \<and> inside_root (''/'', [''srv'', ''data'']) (''/'', [''srv'', ''data'', ''notes'', ''a.txt''])
   \<and> resolve_under_restriction
        \<lparr>root_restriction_directory = ''/srv/data'', return_relative_paths = True,
           spoof_directory_root = [], debug = False\<rparr>
        \<lparr>cwd = [], links = Map.empty, nodes = Map.empty\<rparr>
        ''/srv/data/notes/a.txt'' = Inr ''/srv/data/notes/a.txt''
   \<and> (\<exists>m. resolve_under_restriction
        \<lparr>root_restriction_directory = ''/srv/data'', return_relative_paths = True,
           spoof_directory_root = [], debug = False\<rparr>
        \<lparr>cwd = [], links = Map.empty, nodes = Map.empty\<rparr>
        ''/etc/passwd'' = Inl (ValueError m))
   \<and> \<not> inside_root (''/'', [''srv'', ''data'']) (''/'', [''etc'', ''passwd''])"
proof -
  let ?v = "\<lparr>root_restriction_directory = ''/srv/data'', return_relative_paths = True,
           spoof_directory_root = [], debug = False\<rparr>"
  let ?w = "\<lparr>cwd = [], links = Map.empty, nodes = Map.empty\<rparr>"
  have a1: "isabs ''/srv/data/notes/a.txt''" and a2: "isabs ''/etc/passwd''"
    by (simp_all add: isabs_def)
  have b: "path_resolve ?w (Path (root_restriction_directory ?v)) = Inr (''/'', [''srv'', ''data''])"
    by (simp add: path_resolve_def Path_def MAXSYMLINKS_def)
  have p1: "path_resolve ?w (Path ''/srv/data/notes/a.txt'')
              = Inr (''/'', [''srv'', ''data'', ''notes'', ''a.txt''])"
    by (simp add: path_resolve_def Path_def MAXSYMLINKS_def)
  have p2: "path_resolve ?w (Path ''/etc/passwd'') = Inr (''/'', [''etc'', ''passwd''])"
    by (simp add: path_resolve_def Path_def MAXSYMLINKS_def)
  have i: "inside_root (''/'', [''srv'', ''data'']) (''/'', [''srv'', ''data'', ''notes'', ''a.txt''])"
    by (simp add: inside_root_def)
  have e: "\<exists>m. resolve_under_restriction ?v ?w ''/etc/passwd'' = Inl (ValueError m)"
    by (simp add: resolve_under_restriction_def path_resolve_def Path_def path_join_def
        path_str_def MAXSYMLINKS_def)
  from absolute_candidate_inside_root_accepted[OF a1 b p1] i
       absolute_candidate_inside_root_accepted[OF a2 b p2] e a1
  show ?thesis by (simp add: path_str_def)
qed

lemma relative_to_inside:
  "inside_root base q \<Longrightarrow> relative_to q base = Inr ([], drop (length (snd base)) (snd q))"
  by (simp add: inside_root_def relative_to_def)

lemma relative_to_outside:
  "\<not> inside_root base q \<Longrightarrow> \<exists>e. relative_to q base = Inl e"
  by (auto simp: inside_root_def relative_to_def)

lemma path_str_prefix_parts:
  assumes "D \<noteq> ([], [])" and "\<forall>p \<in> set (snd D). clean_part p"
  shows "prefix (path_str D) (path_str (fst D, snd D @ R))"
proof -
  have ne: "fst D @ join_sep (snd D) \<noteq> []"
    using assms join_sep_clean_not_abs[of "snd D"] by (cases D) auto
  have p: "prefix (fst D @ join_sep (snd D)) (fst D @ join_sep (snd D @ R))"
    by (simp add: prefix_join_sep)
  then have ne': "fst D @ join_sep (snd D @ R) \<noteq> []"
    using ne by (auto simp: prefix_def)
  show ?thesis using ne ne' p by (auto simp: path_str_def Let_def)
qed

section \<open>Display paths\<close>

text \<open>
  Claim C8 (amended). In relative-path mode, with a display root whose canonical form
  differs from the real root's, a path under the real root is mapped to the pathlib join of
  the display root and the path's remainder below the real root; so the output begins with
  the display root in its pathlib-normal form (the configured string itself when that has no
  trailing or doubled separator and no \<open>.\<close> segment), unless the display root parses to the
  empty relative path. A path that is not under the real root is returned unchanged. Nothing
  says the output is free of the real root's string.
\<close>

theorem display_path_replaces_real_root:
  assumes "return_relative_paths v"
    and "path_resolve w (Path (root_restriction_directory v)) = Inr base"
    and "path_resolve w (Path (display_root_of v)) = Inr spoof_base"
  shows "(inside_root base (Path a) \<and> path_str spoof_base \<noteq> path_str base \<longrightarrow>
            get_relative_path v w a =
              Inr (path_str (fst (Path (display_root_of v)),
                     snd (Path (display_root_of v)) @ drop (length (snd base)) (snd (Path a))))
          \<and> (Path (display_root_of v) \<noteq> ([], []) \<longrightarrow>
               (\<exists>s. get_relative_path v w a = Inr s
                    \<and> prefix (path_str (Path (display_root_of v))) s)))
       \<and> (\<not> inside_root base (Path a) \<longrightarrow> get_relative_path v w a = Inr a)"
proof -
  let ?D = "Path (display_root_of v)"
  let ?R = "drop (length (snd base)) (snd (Path a))"
  have cl: "\<forall>p \<in> set ?R. clean_part p"
    by (auto dest: in_set_dropD Path_parts_clean)
  have rel: "Path (path_str ([], ?R)) = ([], ?R)"
    using cl by (rule Path_path_str_rel)
  have inside: "get_relative_path v w a = Inr (path_str (fst ?D, snd ?D @ ?R))"
    if "inside_root base (Path a)" "path_str spoof_base \<noteq> path_str base"
    using that assms rel
    by (simp add: get_relative_path_def relative_to_inside path_join_def)
  have pre: "prefix (path_str ?D) (path_str (fst ?D, snd ?D @ ?R))" if "?D \<noteq> ([], [])"
    using that by (intro path_str_prefix_parts) (auto dest: Path_parts_clean)
  have outside: "get_relative_path v w a = Inr a" if "\<not> inside_root base (Path a)"
    using relative_to_outside[OF that] assms by (auto simp: get_relative_path_def)
  show ?thesis using inside pre outside by auto
qed

text \<open>
  Claim C8 as stated fails: with real root \<open>/data\<close> and display root \<open>/workspace\<close>, the file
  \<open>/data/backup/data/x.txt\<close> is shown as \<open>/workspace/backup/data/x.txt\<close>, which contains the
  real root's string; and with the display root written \<open>/workspace/\<close> the real root itself is
  shown as \<open>/workspace\<close>, which does not begin with the configured display root.
\<close>

theorem display_path_contains_real_root_counterexample:
  "path_resolve \<lparr>cwd = [], links = Map.empty, nodes = Map.empty\<rparr> (Path ''/data'') = Inr (''/'', [''data''])
   \<and> path_resolve \<lparr>cwd = [], links = Map.empty, nodes = Map.empty\<rparr> (Path ''/workspace'') = Inr (''/'', [''workspace''])
   \<and> inside_root (''/'', [''data'']) (Path ''/data/backup/data/x.txt'')
   \<and> get_relative_path
        \<lparr>root_restriction_directory = ''/data'', return_relative_paths = True,
           spoof_directory_root = ''/workspace'', debug = False\<rparr>
        \<lparr>cwd = [], links = Map.empty, nodes = Map.empty\<rparr>
        ''/data/backup/data/x.txt'' = Inr ''/workspace/backup/data/x.txt''
   \<and> contains_str ''/data'' ''/workspace/backup/data/x.txt''
   \<and> get_relative_path
        \<lparr>root_restriction_directory = ''/data'', return_relative_paths = True,
           spoof_directory_root = ''/workspace/'', debug = False\<rparr>
        \<lparr>cwd = [], links = Map.empty, nodes = Map.empty\<rparr>
        ''/data'' = Inr ''/workspace''
   \<and> \<not> prefix ''/workspace/'' ''/workspace''"
  by (simp add: get_relative_path_def path_resolve_def Path_def path_join_def relative_to_def
      display_root_of_def path_str_def MAXSYMLINKS_def inside_root_def)

theorem display_path_replaces_real_root_witness:
  "return_relative_paths
     \<lparr>root_restriction_directory = ''/data'', return_relative_paths = True,
        spoof_directory_root = ''/workspace'', debug = False\<rparr>
   \<and> inside_root (''/'', [''data'']) (Path ''/data/docs/a.txt'')
   \<and> get_relative_path
        \<lparr>root_restriction_directory = ''/data'', return_relative_paths = True,
           spoof_directory_root = ''/workspace'', debug = False\<rparr>
        \<lparr>cwd = [], links = Map.empty, nodes = Map.empty\<rparr>
        ''/data/docs/a.txt'' = Inr ''/workspace/docs/a.txt''
   \<and> prefix ''/workspace'' ''/workspace/docs/a.txt''
   \<and> \<not> inside_root (''/'', [''data'']) (Path ''/etc/passwd'')
   \<and> get_relative_path
        \<lparr>root_restriction_directory = ''/data'', return_relative_paths = True,
           spoof_directory_root = ''/workspace'', debug = False\<rparr>
        \<lparr>cwd = [], links = Map.empty, nodes = Map.empty\<rparr>
        ''/etc/passwd'' = Inr ''/etc/passwd''"
proof -
  let ?v = "\<lparr>root_restriction_directory = ''/data'', return_relative_paths = True,
        spoof_directory_root = ''/workspace'', debug = False\<rparr>"
  let ?w = "\<lparr>cwd = [], links = Map.empty, nodes = Map.empty\<rparr>"
  have r: "return_relative_paths ?v" by simp
  have b: "path_resolve ?w (Path (root_restriction_directory ?v)) = Inr (''/'', [''data''])"
    by (simp add: path_resolve_def Path_def MAXSYMLINKS_def)
  have s: "path_resolve ?w (Path (display_root_of ?v)) = Inr (''/'', [''workspace''])"
    by (simp add: path_resolve_def Path_def MAXSYMLINKS_def display_root_of_def)
  from display_path_replaces_real_root[OF r b s, of "''/data/docs/a.txt''"]
       display_path_replaces_real_root[OF r b s, of "''/etc/passwd''"]
  show ?thesis
    by (simp add: Path_def path_str_def inside_root_def display_root_of_def)
qed


section \<open>Lemmas on the file system\<close>

lemma os_key_nodes_upd [simp]: "os_key (w\<lparr>nodes := n\<rparr>) s = os_key w s"
  by (simp add: os_key_def)

lemma makedirs_from_keeps:
  "makedirs_from ns cur cs = Inr ns' \<Longrightarrow> ns k = Some n \<Longrightarrow> ns' k = Some n"
proof (induction ns cur cs rule: makedirs_from.induct)
  case (1 ns cur)
  then show ?case by simp
next
  case (2 ns cur c cs)
  show ?case
  proof (cases "ns (cur @ [c])")
    case None
    then have "k \<noteq> cur @ [c]" using "2.prems" by auto
    then have a: "(ns(cur @ [c] \<mapsto> Dir)) k = Some n" using "2.prems"(2) by simp
    have b: "makedirs_from (ns(cur @ [c] \<mapsto> Dir)) (cur @ [c]) cs = Inr ns'"
      using "2.prems"(1) None by simp
    show ?thesis using "2.IH"(1)[OF None b a] .
  next
    case (Some nd)
    then show ?thesis using 2 by (cases nd) auto
  qed
qed

lemma os_makedirs_cwd: "os_makedirs w s = Inr w' \<Longrightarrow> cwd w' = cwd w \<and> links w' = links w"
  by (auto simp: os_makedirs_def split: sum.splits)

lemma os_makedirs_keeps:
  "os_makedirs w s = Inr w' \<Longrightarrow> nodes w k = Some n \<Longrightarrow> nodes w' k = Some n"
  by (auto simp: os_makedirs_def split: sum.splits dest: makedirs_from_keeps)

lemma ensure_parent_dir_cwd:
  "ensure_parent_dir w s = Inr w' \<Longrightarrow> cwd w' = cwd w \<and> links w' = links w"
  by (auto simp: ensure_parent_dir_def Let_def split: if_splits dest: os_makedirs_cwd)

lemma ensure_parent_dir_keeps:
  "ensure_parent_dir w s = Inr w' \<Longrightarrow> nodes w k = Some n \<Longrightarrow> nodes w' k = Some n"
  by (auto simp: ensure_parent_dir_def Let_def split: if_splits dest: os_makedirs_keeps)

lemma os_key_cong: "cwd w' = cwd w \<Longrightarrow> os_key w' s = os_key w s"
  by (simp add: os_key_def)

lemma mkstemp_fresh:
  "mkstemp w d names = Inr (t, w') \<Longrightarrow>
     nodes w (os_key w t) = None \<and> os_key w t \<noteq> []
     \<and> w' = w\<lparr>nodes := (nodes w)(os_key w t \<mapsto> File (Raw []))\<rparr>
     \<and> node_at w (butlast (os_key w t)) = Some Dir"
  by (induction w d names rule: mkstemp.induct)
     (auto simp: Let_def node_at_def split: if_splits)


lemma write_file_shape:
  "write_file w s x = Inr w' \<Longrightarrow> w' = w\<lparr>nodes := (nodes w)(os_key w s \<mapsto> File x)\<rparr>"
  by (auto simp: write_file_def Let_def split: option.splits node.splits if_splits)

lemma write_file_ok:
  "nodes w (os_key w s) = Some (File y) \<Longrightarrow> os_key w s \<noteq> [] \<Longrightarrow>
   node_at w (butlast (os_key w s)) = Some Dir \<Longrightarrow>
   write_file w s x = Inr (w\<lparr>nodes := (nodes w)(os_key w s \<mapsto> File x)\<rparr>)"
  by (auto simp: write_file_def Let_def node_at_def)

lemma write_temp_fail_shape:
  "write_temp flt w tp content = Inl (w', e) \<Longrightarrow>
     w' = w \<or> (\<exists>x. w' = w\<lparr>nodes := (nodes w)(os_key w tp \<mapsto> File x)\<rparr>)"
  by (auto simp: write_temp_def split: fault.splits sum.splits if_splits dest: write_file_shape)

lemma write_temp_ok_shape:
  "write_temp flt w tp content = Inr w' \<Longrightarrow>
     w' = w\<lparr>nodes := (nodes w)(os_key w tp \<mapsto> File (Raw content))\<rparr>
     \<and> (flt = NoFault \<or> flt = ReplaceFails)"
  by (auto simp: write_temp_def split: fault.splits sum.splits if_splits dest: write_file_shape)

lemma write_temp_fault:
  "flt \<noteq> NoFault \<Longrightarrow> flt \<noteq> ReplaceFails \<Longrightarrow> \<exists>x. write_temp flt w tp content = Inl x"
  by (auto simp: write_temp_def split: fault.splits sum.splits)

lemma cleanup_temp_removes:
  "nodes w (os_key w tp) = Some (File x) \<Longrightarrow> os_key w tp \<noteq> [] \<Longrightarrow>
   cleanup_temp w tp = w\<lparr>nodes := (nodes w)(os_key w tp := None)\<rparr>"
  by (simp add: cleanup_temp_def os_unlink_def node_at_def)

lemma cleanup_after_temp:
  assumes "nodes w1 t = None" "t \<noteq> []" "os_key w1 tp = t"
    and "w3 = w1\<lparr>nodes := (nodes w1)(t \<mapsto> File x)\<rparr>"
  shows "cleanup_temp w3 tp = w1"
proof -
  have "cleanup_temp w3 tp = w3\<lparr>nodes := (nodes w3)(os_key w3 tp := None)\<rparr>"
    using assms by (intro cleanup_temp_removes) auto
  also have "\<dots> = w1\<lparr>nodes := (nodes w1)(t := None)\<rparr>" using assms by simp
  also have "(nodes w1)(t := None) = nodes w1" using assms(1) by (rule fun_upd_idem)
  finally show ?thesis by simp
qed

lemma os_replace_shape:
  "os_replace w src dst = Inr w' \<Longrightarrow> nodes w (os_key w src) = Some (File x) \<Longrightarrow>
   os_key w src \<noteq> [] \<Longrightarrow>
     nodes w' (os_key w dst) = Some (File x)
     \<and> (os_key w src \<noteq> os_key w dst \<longrightarrow> nodes w' (os_key w src) = None)
     \<and> cwd w' = cwd w"
  by (auto simp: os_replace_def Let_def node_at_def split: option.splits node.splits if_splits)


lemma atomic_write_cases:
  assumes ep: "ensure_parent_dir w file_path = Inr w1"
    and mk: "mkstemp w1 (dirname file_path) names = Inr (temp_path, w2)"
  shows "(\<exists>w3 e. atomic_write flt names w file_path content = ([w, w1, w2, w3, w1], Inl e))
       \<or> (\<exists>w4. flt = NoFault
            \<and> atomic_write flt names w file_path content =
                 ([w, w1, w2, w2\<lparr>nodes := (nodes w2)(os_key w temp_path \<mapsto> File (Raw content))\<rparr>, w4],
                  Inr ())
            \<and> os_replace (w2\<lparr>nodes := (nodes w2)(os_key w temp_path \<mapsto> File (Raw content))\<rparr>)
                 temp_path file_path = Inr w4)"
proof -
  let ?t = "os_key w temp_path"
  have c1: "cwd w1 = cwd w" using ep by (auto dest: ensure_parent_dir_cwd)
  have k1: "os_key w1 temp_path = ?t" using c1 by (rule os_key_cong)
  have fr: "nodes w1 ?t = None" "?t \<noteq> []"
    and w2: "w2 = w1\<lparr>nodes := (nodes w1)(?t \<mapsto> File (Raw []))\<rparr>"
    using mkstemp_fresh[OF mk] k1 by auto
  have k2: "os_key w2 temp_path = ?t" using w2 k1 by simp
  show ?thesis
  proof (cases "write_temp flt w2 temp_path content")
    case (Inl x)
    obtain w3 e where x: "x = (w3, e)" by (cases x)
    have "\<exists>y. w3 = w1\<lparr>nodes := (nodes w1)(?t \<mapsto> File y)\<rparr>"
      using write_temp_fail_shape[OF Inl[unfolded x]] w2 k2 by auto
    then obtain y where "w3 = w1\<lparr>nodes := (nodes w1)(?t \<mapsto> File y)\<rparr>" ..
    then have "cleanup_temp w3 temp_path = w1"
      using fr k1 by (intro cleanup_after_temp) auto
    then show ?thesis using ep mk Inl x by (simp add: atomic_write_def)
  next
    case (Inr w3)
    have w3: "w3 = w2\<lparr>nodes := (nodes w2)(?t \<mapsto> File (Raw content))\<rparr>"
      and f: "flt = NoFault \<or> flt = ReplaceFails"
      using write_temp_ok_shape[OF Inr] k2 by auto
    have w3': "w3 = w1\<lparr>nodes := (nodes w1)(?t \<mapsto> File (Raw content))\<rparr>"
      using w3 w2 by simp
    have cl: "cleanup_temp w3 temp_path = w1"
      using fr k1 w3' by (intro cleanup_after_temp) auto
    show ?thesis
    proof (cases "flt = ReplaceFails \<or> (\<exists>e. os_replace w3 temp_path file_path = Inl e)")
      case True
      then show ?thesis using ep mk Inr cl by (auto simp: atomic_write_def)
    next
      case False
      then obtain w4 where "os_replace w3 temp_path file_path = Inr w4"
        by (cases "os_replace w3 temp_path file_path") auto
      then show ?thesis using ep mk Inr False f w3 by (auto simp: atomic_write_def)
    qed
  qed
qed

section \<open>Atomic write\<close>

text \<open>
  Claim C3. Once the temporary file exists (the parent directories were ensured and
  \<open>mkstemp\<close> returned), every injected fault makes the call fail with an exception; a call
  that fails leaves exactly the world it had after ensuring the parent directories, so the
  temporary file is gone and a target that existed before still has its content \<open>d\<close>; and
  a call that succeeds reaches its final world by \<open>os.replace\<close> from the world before it,
  the target then holds the new content, the temporary name is gone, and in every world
  before the last one a target that existed before still has its content \<open>d\<close>.
\<close>

theorem atomic_write_all_or_nothing:
  assumes ep: "ensure_parent_dir w file_path = Inr w1"
    and mk: "mkstemp w1 (dirname file_path) names = Inr (temp_path, w2)"
    and aw: "atomic_write flt names w file_path content = (trace, outcome)"
  shows "(flt \<noteq> NoFault \<longrightarrow> (\<exists>e. outcome = Inl e))
     \<and> ((\<exists>e. outcome = Inl e) \<longrightarrow>
           last trace = w1
         \<and> nodes (last trace) (os_key w temp_path) = None
         \<and> (nodes w (os_key w file_path) = Some (File d) \<longrightarrow>
              nodes (last trace) (os_key w file_path) = Some (File d)))
     \<and> (outcome = Inr () \<longrightarrow>
           os_replace (last (butlast trace)) temp_path file_path = Inr (last trace)
         \<and> nodes (last trace) (os_key w file_path) = Some (File (Raw content))
         \<and> (os_key w temp_path \<noteq> os_key w file_path \<longrightarrow>
              nodes (last trace) (os_key w temp_path) = None)
         \<and> (nodes w (os_key w file_path) = Some (File d) \<longrightarrow>
              list_all (\<lambda>w'. nodes w' (os_key w file_path) = Some (File d)) (butlast trace)))"
proof -
  let ?t = "os_key w temp_path" and ?k = "os_key w file_path"
  have c1: "cwd w1 = cwd w" using ep by (auto dest: ensure_parent_dir_cwd)
  have k1: "os_key w1 temp_path = ?t" using c1 by (rule os_key_cong)
  have fr: "nodes w1 ?t = None" "?t \<noteq> []"
    and w2: "w2 = w1\<lparr>nodes := (nodes w1)(?t \<mapsto> File (Raw []))\<rparr>"
    using mkstemp_fresh[OF mk] k1 by auto
  have keep: "nodes w1 ?k = Some (File d)" if "nodes w ?k = Some (File d)"
    using ensure_parent_dir_keeps[OF ep that] .
  from atomic_write_cases[OF ep mk, of flt content]
  show ?thesis
  proof (elim disjE exE conjE)
    fix w3 e
    assume "atomic_write flt names w file_path content = ([w, w1, w2, w3, w1], Inl e)"
    then have "trace = [w, w1, w2, w3, w1]" "outcome = Inl e" using aw by auto
    then show ?thesis using fr keep by auto
  next
    fix w4
    let ?w3 = "w2\<lparr>nodes := (nodes w2)(?t \<mapsto> File (Raw content))\<rparr>"
    assume nf: "flt = NoFault"
      and a: "atomic_write flt names w file_path content = ([w, w1, w2, ?w3, w4], Inr ())"
      and r: "os_replace ?w3 temp_path file_path = Inr w4"
    have tr: "trace = [w, w1, w2, ?w3, w4]" "outcome = Inr ()" using aw a by auto
    have k3: "os_key ?w3 temp_path = ?t" "os_key ?w3 file_path = ?k"
      using w2 c1 by (simp_all add: os_key_def)
    have "nodes ?w3 (os_key ?w3 temp_path) = Some (File (Raw content))"
      using k3 by simp
    from os_replace_shape[OF r this] fr k3
    have w4: "nodes w4 ?k = Some (File (Raw content))" "?t \<noteq> ?k \<Longrightarrow> nodes w4 ?t = None"
      by auto
    have bl: "list_all (\<lambda>w'. nodes w' ?k = Some (File d)) [w, w1, w2, ?w3]"
      if "nodes w ?k = Some (File d)"
    proof -
      have "?t \<noteq> ?k" using keep[OF that] fr by auto
      then show ?thesis using that keep[OF that] w2 by simp
    qed
    show ?thesis using tr nf r w4 bl by simp
  qed
qed

theorem atomic_write_all_or_nothing_witness:
  "ensure_parent_dir
     \<lparr>cwd = [], links = Map.empty,
        nodes = [[''r''] \<mapsto> Dir, [''r'', ''a.txt''] \<mapsto> File (Raw ''old'')]\<rparr> ''/r/a.txt''
     = Inr \<lparr>cwd = [], links = Map.empty,
        nodes = [[''r''] \<mapsto> Dir, [''r'', ''a.txt''] \<mapsto> File (Raw ''old'')]\<rparr>
   \<and> (\<exists>e. snd (atomic_write ReplaceFails [''tmpk3x9'']
          \<lparr>cwd = [], links = Map.empty,
             nodes = [[''r''] \<mapsto> Dir, [''r'', ''a.txt''] \<mapsto> File (Raw ''old'')]\<rparr>
          ''/r/a.txt'' ''new'') = Inl e)
   \<and> nodes (last (fst (atomic_write ReplaceFails [''tmpk3x9'']
          \<lparr>cwd = [], links = Map.empty,
             nodes = [[''r''] \<mapsto> Dir, [''r'', ''a.txt''] \<mapsto> File (Raw ''old'')]\<rparr>
          ''/r/a.txt'' ''new''))) [''r'', ''a.txt''] = Some (File (Raw ''old''))
   \<and> nodes (last (fst (atomic_write ReplaceFails [''tmpk3x9'']
          \<lparr>cwd = [], links = Map.empty,
             nodes = [[''r''] \<mapsto> Dir, [''r'', ''a.txt''] \<mapsto> File (Raw ''old'')]\<rparr>
          ''/r/a.txt'' ''new''))) [''r'', ''tmpk3x9''] = None
   \<and> snd (atomic_write NoFault [''tmpk3x9'']
          \<lparr>cwd = [], links = Map.empty,
             nodes = [[''r''] \<mapsto> Dir, [''r'', ''a.txt''] \<mapsto> File (Raw ''old'')]\<rparr>
          ''/r/a.txt'' ''new'') = Inr ()
   \<and> nodes (last (fst (atomic_write NoFault [''tmpk3x9'']
          \<lparr>cwd = [], links = Map.empty,
             nodes = [[''r''] \<mapsto> Dir, [''r'', ''a.txt''] \<mapsto> File (Raw ''old'')]\<rparr>
          ''/r/a.txt'' ''new''))) [''r'', ''a.txt''] = Some (File (Raw ''new''))
   \<and> list_all (\<lambda>w'. nodes w' [''r'', ''a.txt''] = Some (File (Raw ''old'')))
        (butlast (fst (atomic_write NoFault [''tmpk3x9'']
          \<lparr>cwd = [], links = Map.empty,
             nodes = [[''r''] \<mapsto> Dir, [''r'', ''a.txt''] \<mapsto> File (Raw ''old'')]\<rparr>
          ''/r/a.txt'' ''new'')))"
proof -
  let ?w = "\<lparr>cwd = [], links = Map.empty,
        nodes = [[''r''] \<mapsto> Dir, [''r'', ''a.txt''] \<mapsto> File (Raw ''old'')]\<rparr>"
  let ?w2 = "?w\<lparr>nodes := (nodes ?w)([''r'', ''tmpk3x9''] \<mapsto> File (Raw []))\<rparr>"
  have kf: "os_key ?w ''/r/a.txt'' = [''r'', ''a.txt'']"
    and kt: "os_key ?w ''/r/tmpk3x9'' = [''r'', ''tmpk3x9'']"
    and kd: "os_key ?w ''/r'' = [''r'']"
    and dn: "dirname ''/r/a.txt'' = ''/r''"
    by (simp_all add: os_key_def isabs_def norm_step_def dirname_def rsplit_sep_def rstrip_sep_def)
  have ep: "ensure_parent_dir ?w ''/r/a.txt'' = Inr ?w"
    by (simp add: ensure_parent_dir_def dn os_makedirs_def kd)
  have mk: "mkstemp ?w (dirname ''/r/a.txt'') [''tmpk3x9''] = Inr (''/r/tmpk3x9'', ?w2)"
    by (simp add: dn os_path_join_def suffix_to_prefix kt node_at_def)
  have ok: "snd (atomic_write NoFault [''tmpk3x9''] ?w ''/r/a.txt'' ''new'') = Inr ()"
    by (simp add: atomic_write_def ensure_parent_dir_def os_makedirs_def write_temp_def
        write_file_def os_replace_def node_at_def os_key_def isabs_def norm_step_def
        dirname_def rsplit_sep_def rstrip_sep_def os_path_join_def suffix_to_prefix)
  have d: "nodes ?w (os_key ?w ''/r/a.txt'') = Some (File (Raw ''old''))"
    by (simp add: kf)
  from atomic_write_all_or_nothing[OF ep mk prod.collapse[symmetric],
         of ReplaceFails "''new''" "Raw ''old''"]
       atomic_write_all_or_nothing[OF ep mk prod.collapse[symmetric],
         of NoFault "''new''" "Raw ''old''"]
       ok d ep
  show ?thesis by (simp add: kf kt)
qed

section \<open>Lemmas on archive member paths\<close>

lemma split_on_append:
  "split_on c (a @ c # b) = split_on c a @ split_on c b"
  by (induction a) (auto split: list.splits simp: split_on_nonempty)

lemma split_on_snoc_free:
  "c \<notin> set t \<Longrightarrow> split_on c (h @ c # t) = split_on c h @ [t]"
  by (simp add: split_on_append split_on_free)

lemma norm_step_skip [simp]: "norm_step n acc [] = acc" "norm_step n acc ''.'' = acc"
  by (simp_all add: norm_step_def)


lemma norm_step_normal: "normal_part c \<Longrightarrow> norm_step n acc c = acc @ [c]"
  by (simp add: norm_step_def normal_part_def)

lemma foldl_norm_step_normal:
  "\<forall>c \<in> set cs. normal_part c \<Longrightarrow> foldl (norm_step n) acc cs = acc @ cs"
  by (induction cs arbitrary: acc) (auto simp: norm_step_normal)

lemma os_key_empty: "os_key w [] = cwd w"
  by (simp add: os_key_def isabs_def)

lemma os_key_join:
  assumes "\<not> isabs b"
  shows "os_key w (os_path_join a b) = foldl (norm_step 1) (os_key w a) (split_on CHR ''/'' b)"
proof (cases "a = []")
  case True
  then show ?thesis using assms by (simp add: os_path_join_def os_key_def isabs_def)
next
  case False
  then have ab: "\<And>x. isabs (a @ x) = isabs a"
    by (cases a) (auto simp: isabs_def)
  show ?thesis
  proof (cases "suffix ''/'' a")
    case True
    then obtain a' where a: "a = a' @ ''/''" by (auto simp: suffix_def)
    have "os_path_join a b = a' @ CHR ''/'' # b"
      using True assms a by (simp add: os_path_join_def isabs_def)
    moreover have "split_on CHR ''/'' a = split_on CHR ''/'' a' @ [[]]"
      using a by (simp add: split_on_append)
    ultimately show ?thesis
      using ab[of b] a by (simp add: os_key_def split_on_append)
  next
    case False
    then have "os_path_join a b = a @ CHR ''/'' # b"
      using assms \<open>a \<noteq> []\<close> by (simp add: os_path_join_def isabs_def)
    then show ?thesis
      using ab[of "CHR ''/'' # b"] by (simp add: os_key_def split_on_append)
  qed
qed


lemma rsplit_sep_free: "CHR ''/'' \<notin> set p \<Longrightarrow> rsplit_sep p = ([], p)"
proof -
  assume "CHR ''/'' \<notin> set p"
  then have "takeWhile (\<lambda>c. c \<noteq> CHR ''/'') (rev p) = rev p"
    by auto
  then show ?thesis by (simp add: rsplit_sep_def Let_def del: takeWhile_eq_all_conv)
qed

lemma rsplit_sep_last:
  assumes "CHR ''/'' \<notin> set t"
  shows "rsplit_sep (h @ CHR ''/'' # t) = (h @ ''/'', t)"
proof -
  have "takeWhile (\<lambda>c. c \<noteq> CHR ''/'') (rev t) = rev t"
    using assms by auto
  then have "takeWhile (\<lambda>c. c \<noteq> CHR ''/'') (rev t @ CHR ''/'' # rev h) = rev t"
    by (simp add: takeWhile_tail)
  then show ?thesis by (simp add: rsplit_sep_def Let_def)
qed

lemma os_key_snoc_sep: "x \<noteq> [] \<Longrightarrow> os_key w (x @ ''/'') = os_key w x"
proof -
  assume "x \<noteq> []"
  then have "isabs (x @ ''/'') = isabs x" by (cases x) (auto simp: isabs_def)
  moreover have "split_on CHR ''/'' (x @ ''/'') = split_on CHR ''/'' x @ [[]]"
    by (simp add: split_on_append)
  ultimately show ?thesis by (simp add: os_key_def)
qed

lemma os_key_snoc_seps: "x \<noteq> [] \<Longrightarrow> os_key w (x @ replicate n CHR ''/'') = os_key w x"
proof (induction n)
  case 0
  then show ?case by simp
next
  case (Suc n)
  have "x @ replicate (Suc n) CHR ''/'' = (x @ replicate n CHR ''/'') @ ''/''"
    by (simp add: replicate_append_same)
  then show ?case using Suc os_key_snoc_sep[of "x @ replicate n CHR ''/''" w] by simp
qed

lemma rstrip_sep_decomp: "\<exists>n. s = rstrip_sep s @ replicate n CHR ''/''"
proof -
  let ?P = "\<lambda>c. c = CHR ''/''"
  have "rev s = takeWhile ?P (rev s) @ dropWhile ?P (rev s)" by simp
  then have "s = rev (dropWhile ?P (rev s)) @ rev (takeWhile ?P (rev s))"
    by (metis rev_append rev_rev_ident)
  moreover have "rev (takeWhile ?P (rev s)) = replicate (length (takeWhile ?P (rev s))) CHR ''/''"
    by (intro replicate_eqI) (auto dest: set_takeWhileD)
  ultimately show ?thesis unfolding rstrip_sep_def by metis
qed

lemma os_key_rstrip:
  assumes "\<not> list_all (\<lambda>c. c = CHR ''/'') s"
  shows "os_key w (rstrip_sep s) = os_key w s"
proof -
  have "rstrip_sep s \<noteq> []"
    using assms by (auto simp: rstrip_sep_def dropWhile_eq_Nil_conv list_all_iff)
  moreover obtain n where "s = rstrip_sep s @ replicate n CHR ''/''"
    using rstrip_sep_decomp by blast
  ultimately show ?thesis using os_key_snoc_seps by metis
qed

lemma os_key_dirname:
  "os_key w p = norm_step 1 (os_key w (dirname p)) (basename p)"
proof (cases "CHR ''/'' \<in> set p")
  case False
  then have r: "rsplit_sep p = ([], p)" by (rule rsplit_sep_free)
  have "\<not> isabs p" using False by (cases p) (auto simp: isabs_def)
  moreover have "split_on CHR ''/'' p = [p]" using False by (rule split_on_free)
  ultimately show ?thesis using r
    by (simp add: dirname_def basename_def os_key_def isabs_def)
next
  case True
  then obtain h t where p: "p = h @ CHR ''/'' # t" and t: "CHR ''/'' \<notin> set t"
    by (auto dest: split_list_last)
  have r: "rsplit_sep p = (h @ ''/'', t)" unfolding p using t by (rule rsplit_sep_last)
  have d: "os_key w (dirname p) = os_key w (h @ ''/'')"
    using r os_key_rstrip[of "h @ ''/''" w] by (auto simp: dirname_def Let_def)
  have ab: "isabs p = isabs (h @ ''/'')"
    unfolding p by (cases h) (auto simp: isabs_def)
  have s1: "split_on CHR ''/'' p = split_on CHR ''/'' h @ [t]"
    unfolding p using t by (rule split_on_snoc_free)
  have s2: "split_on CHR ''/'' (h @ ''/'') = split_on CHR ''/'' h @ [[]]"
    by (simp add: split_on_append)
  have k1: "os_key w p = norm_step 1 (os_key w (h @ ''/'')) t"
    by (simp add: os_key_def ab s1 s2)
  show ?thesis
    using r by (simp add: k1 d basename_def)
qed


lemma norm_step0_shape:
  assumes "acc = replicate k ''..'' @ ns" "\<forall>c \<in> set ns. normal_part c" "CHR ''/'' \<notin> set c"
  shows "\<exists>k' ns'. norm_step 0 acc c = replicate k' ''..'' @ ns' \<and> (\<forall>c \<in> set ns'. normal_part c)"
proof -
  consider "c = [] \<or> c = ''.''" | "normal_part c" | "c = ''..''"
    using assms(3) by (auto simp: normal_part_def)
  then show ?thesis
  proof cases
    case 1
    then have "norm_step 0 acc c = replicate k ''..'' @ ns" using assms(1) by auto
    then show ?thesis using assms(2) by blast
  next
    case 2
    then have "norm_step 0 acc c = replicate k ''..'' @ (ns @ [c])"
      using assms by (simp add: norm_step_normal)
    moreover have "\<forall>x \<in> set (ns @ [c]). normal_part x" using assms 2 by auto
    ultimately show ?thesis by blast
  next
    case 3
    show ?thesis
    proof (cases "ns = []")
      case True
      then have "norm_step 0 acc c = replicate (Suc k) ''..'' @ []"
        using assms 3 by (cases k) (auto simp: norm_step_def replicate_append_same)
      then show ?thesis by (metis empty_iff list.set(1))
    next
      case False
      then have "last acc = last ns" "acc \<noteq> []" using assms by auto
      moreover have "last ns \<noteq> ''..''" using False assms(2) by (auto simp: normal_part_def)
      ultimately have "norm_step 0 acc c = replicate k ''..'' @ butlast ns"
        using assms(1) 3 False by (simp add: norm_step_def butlast_append)
      moreover have "\<forall>x \<in> set (butlast ns). normal_part x"
        using assms(2) by (auto dest: in_set_butlastD)
      ultimately show ?thesis by blast
    qed
  qed
qed

lemma foldl_norm_step0_shape:
  assumes "\<forall>c \<in> set cs. CHR ''/'' \<notin> set c"
  shows "\<exists>k ns. foldl (norm_step 0) [] cs = replicate k ''..'' @ ns \<and> (\<forall>c \<in> set ns. normal_part c)"
  using assms
proof (induction cs rule: rev_induct)
  case Nil
  have "[] = replicate 0 ''..'' @ ([]::string list)" by simp
  then show ?case by (metis empty_iff foldl_Nil list.set(1))
next
  case (snoc c cs)
  then obtain k ns where "foldl (norm_step 0) [] cs = replicate k ''..'' @ ns"
    "\<forall>c \<in> set ns. normal_part c" by auto
  then show ?case using norm_step0_shape[of _ k ns c] snoc.prems by simp
qed

lemma member_parts_shape:
  "\<exists>k ns. member_parts m = replicate k ''..'' @ ns \<and> (\<forall>c \<in> set ns. normal_part c)"
  unfolding member_parts_def by (intro foldl_norm_step0_shape) (auto dest: split_on_no_sep)

lemma lstrip_sep_not_abs: "initial_slashes_of (lstrip_sep m) = 0 \<and> \<not> isabs (lstrip_sep m)"
proof -
  have "lstrip_sep m = [] \<or> hd (lstrip_sep m) \<noteq> CHR ''/''"
    unfolding lstrip_sep_def using hd_dropWhile[of "\<lambda>c. c = CHR ''/''" m] by blast
  then show ?thesis by (cases "lstrip_sep m") (auto simp: initial_slashes_of_def isabs_def)
qed

lemma normpath_member:
  "normpath (lstrip_sep m) = (if member_parts m = [] then ''.'' else join_sep (member_parts m))"
proof (cases "lstrip_sep m = []")
  case True
  then show ?thesis by (simp add: normpath_def member_parts_def)
next
  case False
  have j: "join_sep (member_parts m) = [] \<longleftrightarrow> member_parts m = []"
  proof
    assume e: "join_sep (member_parts m) = []"
    show "member_parts m = []"
    proof (rule ccontr)
      assume ne: "member_parts m \<noteq> []"
      obtain k ns where s: "member_parts m = replicate k ''..'' @ ns" "\<forall>c \<in> set ns. normal_part c"
        using member_parts_shape by blast
      then obtain x xs where x: "member_parts m = x # xs" "x \<noteq> []"
        using ne by (cases k; cases ns) (auto simp: normal_part_def)
      then have "join_sep (member_parts m) \<noteq> []" by (cases xs) auto
      then show False using e by simp
    qed
  qed simp
  show ?thesis
    using False lstrip_sep_not_abs[of m] j
    by (simp add: normpath_def member_parts_def Let_def)
qed


lemma prefix_join_sep_hd: "prefix x (join_sep (x # xs))"
  by (cases xs) auto

lemma basename_append_sep: "basename (h @ CHR ''/'' # b) = basename b"
proof (cases "CHR ''/'' \<in> set b")
  case False
  then show ?thesis by (simp add: basename_def rsplit_sep_last rsplit_sep_free)
next
  case True
  then obtain b1 t where b: "b = b1 @ CHR ''/'' # t" and t: "CHR ''/'' \<notin> set t"
    by (auto dest: split_list_last)
  have "rsplit_sep ((h @ CHR ''/'' # b1) @ CHR ''/'' # t) = ((h @ CHR ''/'' # b1) @ ''/'', t)"
    using t by (rule rsplit_sep_last)
  then show ?thesis using b t by (simp add: basename_def rsplit_sep_last)
qed

lemma basename_join: "basename (os_path_join a b) = basename b"
proof -
  have "suffix ''/'' a \<Longrightarrow> \<exists>a'. a @ b = a' @ CHR ''/'' # b"
    by (auto simp: suffix_def)
  then show ?thesis
    by (auto simp: os_path_join_def basename_append_sep)
qed

lemma basename_join_sep:
  assumes "ps \<noteq> []" "\<forall>p \<in> set ps. CHR ''/'' \<notin> set p"
  shows "basename (join_sep ps) = last ps"
proof (cases "butlast ps = []")
  case True
  then have "ps = [last ps]" using assms(1) by (metis append_butlast_last_id append_Nil)
  then have "join_sep ps = last ps" by (metis join_sep.simps(2))
  then show ?thesis using assms by (simp add: basename_def rsplit_sep_free)
next
  case False
  have "ps = butlast ps @ [last ps]" using assms(1) by simp
  then have "join_sep ps = join_sep (butlast ps) @ CHR ''/'' # last ps"
    using False by (metis join_sep_append join_sep.simps(2) not_Cons_self2)
  moreover have "CHR ''/'' \<notin> set (last ps)" using assms by simp
  ultimately show ?thesis by (simp add: basename_def rsplit_sep_last)
qed

lemma sanitize_shape:
  assumes "sanitize_archive_path w m out = Inr fp"
  shows "\<forall>c \<in> set (member_parts m). normal_part c"
    and "os_key w fp = os_key w out @ member_parts m"
    and "os_key w (dirname fp) = os_key w out @ butlast (member_parts m)"
proof -
  let ?clean = "normpath (lstrip_sep m)"
  have chk: "\<not> prefix ''..'' ?clean" "\<not> isabs ?clean" and fp: "fp = os_path_join out ?clean"
    using assms by (auto simp: sanitize_archive_path_def Let_def split: if_splits)
  obtain k ns where s: "member_parts m = replicate k ''..'' @ ns" "\<forall>c \<in> set ns. normal_part c"
    using member_parts_shape by blast
  have "k = 0"
  proof (rule ccontr)
    assume "k \<noteq> 0"
    then obtain rest where "member_parts m = ''..'' # rest" using s(1) by (cases k) auto
    then have "prefix ''..'' ?clean"
      using prefix_join_sep_hd[of "''..''" rest] by (simp add: normpath_member)
    then show False using chk by simp
  qed
  then show n: "\<forall>c \<in> set (member_parts m). normal_part c" using s by simp
  have sp: "foldl (norm_step (Suc 0)) acc (split_on CHR ''/'' ?clean) = acc @ member_parts m" for acc
  proof (cases "member_parts m = []")
    case True
    then show ?thesis by (simp add: normpath_member)
  next
    case False
    then have "split_on CHR ''/'' ?clean = member_parts m"
      using n by (simp add: normpath_member split_on_join_sep normal_part_def)
    then show ?thesis using n by (simp add: foldl_norm_step_normal)
  qed
  show k: "os_key w fp = os_key w out @ member_parts m"
    unfolding fp using chk(2) by (simp add: os_key_join sp)
  have b0: "basename fp = basename ?clean" unfolding fp by (rule basename_join)
  have b: "basename fp = (if member_parts m = [] then ''.'' else last (member_parts m))"
  proof (cases "member_parts m = []")
    case True
    have "basename ''.'' = ''.''" by (simp add: basename_def rsplit_sep_free)
    then show ?thesis using True by (simp add: b0 normpath_member)
  next
    case False
    then have "basename (join_sep (member_parts m)) = last (member_parts m)"
      using n by (intro basename_join_sep) (auto simp: normal_part_def)
    then show ?thesis using False by (simp add: b0 normpath_member)
  qed
  show "os_key w (dirname fp) = os_key w out @ butlast (member_parts m)"
  proof (cases "member_parts m = []")
    case True
    then show ?thesis using os_key_dirname[of w fp] k b by simp
  next
    case False
    then have "normal_part (last (member_parts m))" using n by simp
    then have "os_key w fp = os_key w (dirname fp) @ [last (member_parts m)]"
      using os_key_dirname[of w fp] b False by (simp add: norm_step_normal)
    moreover have "os_key w fp = (os_key w out @ butlast (member_parts m)) @ [last (member_parts m)]"
      using k False by simp
    ultimately show ?thesis by (metis append1_eq_conv)
  qed
qed

section \<open>Lemmas on archive extraction\<close>

lemma write_file_cwd: "write_file w s d = Inr w' \<Longrightarrow> cwd w' = cwd w \<and> links w' = links w"
  by (drule write_file_shape) simp

lemma abspath_cong:
  assumes "cwd w' = cwd w"
  shows "abspath w' p = abspath w p"
  unfolding abspath_def getcwd_def assms ..

lemma sanitize_cong:
  assumes "cwd w' = cwd w"
  shows "sanitize_archive_path w' m out = sanitize_archive_path w m out"
  unfolding sanitize_archive_path_def abspath_cong[OF assms] ..

lemma path_resolve_cong:
  assumes "cwd w' = cwd w" "links w' = links w"
  shows "path_resolve w' p = path_resolve w p"
  unfolding path_resolve_def assms ..

lemma get_relative_path_cong:
  assumes "cwd w' = cwd w" "links w' = links w"
  shows "get_relative_path v w' a = get_relative_path v w a"
  unfolding get_relative_path_def path_resolve_cong[OF assms] ..

lemma mk_result_cong:
  assumes "cwd w' = cwd w" "links w' = links w"
  shows "mk_result v w' b a s k = mk_result v w b a s k"
  unfolding mk_result_def path_resolve_cong[OF assms] ..

lemma extract_zip_member_cases:
  assumes "extract_zip_member v ms out w m = (w', r)"
  shows "(w' = w \<and> (\<exists>e. r = Inl e))
       \<or> (\<exists>fp d w1. sanitize_archive_path w m out = Inr fp \<and> zip_read ms m = Inr d
            \<and> os_makedirs w (dirname fp) = Inr w1
            \<and> ((w' = w1 \<and> (\<exists>e. r = Inl e \<and> write_file w1 fp d = Inl e))
               \<or> (write_file w1 fp d = Inr w' \<and> r \<noteq> Inr None)))"
proof (cases "sanitize_archive_path w m out")
  case (Inl e)
  then show ?thesis using assms by (auto simp: extract_zip_member_def)
next
  case s: (Inr fp)
  show ?thesis
  proof (cases "zip_read ms m")
    case (Inl e)
    then show ?thesis using assms s by (auto simp: extract_zip_member_def)
  next
    case z: (Inr d)
    show ?thesis
    proof (cases "os_makedirs w (dirname fp)")
      case (Inl e)
      then show ?thesis using assms s z by (auto simp: extract_zip_member_def)
    next
      case mk: (Inr w1)
      show ?thesis
      proof (cases "write_file w1 fp d")
        case (Inl e)
        then show ?thesis using assms s z mk by (auto simp: extract_zip_member_def)
      next
        case wr: (Inr w2)
        have "w' = w2 \<and> r \<noteq> Inr None"
          using assms s z mk wr
          by (cases "get_relative_path v w2 fp") (auto simp: extract_zip_member_def)
        then show ?thesis using s z mk wr by auto
      qed
    qed
  qed
qed


lemma chain_iff: "chain w K \<longleftrightarrow> (\<forall>i \<le> length K. node_at w (take i K) = Some Dir)"
  by (auto simp: chain_def list_all_iff less_Suc_eq_le)

lemma makedirs_from_changes:
  "makedirs_from ns cur cs = Inr ns' \<Longrightarrow>
     ns' k = ns k \<or> (ns k = None \<and> ns' k = Some Dir
        \<and> (\<exists>i. 0 < i \<and> i \<le> length cs \<and> k = cur @ take i cs))"
proof (induction ns cur cs rule: makedirs_from.induct)
  case (1 ns cur)
  then show ?case by simp
next
  case (2 ns cur c cs)
  have ex: "\<exists>i. 0 < i \<and> i \<le> length (c # cs) \<and> k = cur @ take i (c # cs)"
    if "0 < j" "j \<le> length cs" "k = (cur @ [c]) @ take j cs" for j
    using that by (intro exI[of _ "Suc j"]) simp
  have ex1: "\<exists>i. 0 < i \<and> i \<le> length (c # cs) \<and> cur @ [c] = cur @ take i (c # cs)"
    by (intro exI[of _ 1]) simp
  show ?case
  proof (cases "ns (cur @ [c])")
    case None
    then have b: "makedirs_from (ns(cur @ [c] \<mapsto> Dir)) (cur @ [c]) cs = Inr ns'"
      using "2.prems" by simp
    from "2.IH"(1)[OF None b] show ?thesis
    proof
      assume a: "ns' k = (ns(cur @ [c] \<mapsto> Dir)) k"
      show ?thesis
      proof (cases "k = cur @ [c]")
        case True
        then show ?thesis using a None ex1 by auto
      next
        case False
        then show ?thesis using a by simp
      qed
    next
      assume a: "(ns(cur @ [c] \<mapsto> Dir)) k = None \<and> ns' k = Some Dir
        \<and> (\<exists>i. 0 < i \<and> i \<le> length cs \<and> k = (cur @ [c]) @ take i cs)"
      then have "ns k = None" by (auto split: if_splits)
      then show ?thesis using a ex by blast
    qed
  next
    case (Some nd)
    show ?thesis
    proof (cases nd)
      case (File d)
      then show ?thesis using Some "2.prems" by simp
    next
      case Dir
      then have b: "makedirs_from ns (cur @ [c]) cs = Inr ns'" using Some "2.prems" by simp
      from "2.IH"(2)[OF Some Dir b] show ?thesis using ex by blast
    qed
  qed
qed

lemma os_makedirs_under:
  assumes ch: "chain w K" and mk: "os_makedirs w s = Inr w'" and key: "prefix K (os_key w s)"
  shows "(\<forall>k. \<not> prefix K k \<longrightarrow> nodes w' k = nodes w k) \<and> chain w' K
       \<and> (\<forall>k. nodes w k \<noteq> None \<longrightarrow> nodes w' k = nodes w k)"
proof -
  obtain ns where ns: "makedirs_from (nodes w) [] (os_key w s) = Inr ns" and w': "w' = w\<lparr>nodes := ns\<rparr>"
    using mk by (auto simp: os_makedirs_def split: sum.splits)
  have keep: "nodes w' k = nodes w k" if "nodes w k \<noteq> None" for k
    using makedirs_from_changes[OF ns, of k] that w' by auto
  have fr: "nodes w' k = nodes w k" if "\<not> prefix K k" for k
  proof (rule ccontr)
    assume "nodes w' k \<noteq> nodes w k"
    then obtain i where i: "0 < i" "i \<le> length (os_key w s)" "k = take i (os_key w s)"
      and n: "nodes w k = None"
      using makedirs_from_changes[OF ns, of k] w' by auto
    obtain R where R: "os_key w s = K @ R" using key by (auto simp: prefix_def)
    have "i \<le> length K"
    proof (rule ccontr)
      assume "\<not> i \<le> length K"
      then have "k = K @ take (i - length K) R" using i R by simp
      then show False using that by simp
    qed
    then have "k = take i K" using i R by simp
    moreover have "k \<noteq> []" using i by auto
    ultimately have "nodes w k = Some Dir"
      using ch \<open>i \<le> length K\<close> by (auto simp: chain_iff node_at_def split: if_splits)
    then show False using n by simp
  qed
  have "chain w' K"
    unfolding chain_iff
  proof (intro allI impI)
    fix i assume "i \<le> length K"
    then have d: "node_at w (take i K) = Some Dir" using ch by (auto simp: chain_iff)
    show "node_at w' (take i K) = Some Dir"
    proof (cases "take i K = []")
      case True
      then show ?thesis by (simp add: node_at_def)
    next
      case False
      then have "nodes w (take i K) = Some Dir" using d by (simp add: node_at_def)
      then show ?thesis using keep[of "take i K"] False by (simp add: node_at_def)
    qed
  qed
  then show ?thesis using fr keep by blast
qed

lemma write_file_under:
  assumes ch: "chain w K" and wr: "write_file w s d = Inr w'" and key: "prefix K (os_key w s)"
  shows "(\<forall>k. \<not> prefix K k \<longrightarrow> nodes w' k = nodes w k) \<and> chain w' K
       \<and> (\<forall>k. nodes w k \<noteq> None \<longrightarrow> nodes w' k \<noteq> None)
       \<and> (\<exists>x. nodes w' (os_key w s) = Some (File x))"
proof -
  have w': "w' = w\<lparr>nodes := (nodes w)(os_key w s \<mapsto> File d)\<rparr>"
    using wr by (rule write_file_shape)
  have nd: "node_at w (os_key w s) \<noteq> Some Dir"
    using wr by (auto simp: write_file_def Let_def split: option.splits node.splits if_splits)
  have "chain w' K"
    unfolding chain_iff
  proof (intro allI impI)
    fix i assume i: "i \<le> length K"
    then have d: "node_at w (take i K) = Some Dir" using ch by (auto simp: chain_iff)
    have "take i K \<noteq> os_key w s"
    proof
      assume e: "take i K = os_key w s"
      then show False using d nd by simp
    qed
    then show "node_at w' (take i K) = Some Dir"
      using d w' by (auto simp: node_at_def split: if_splits)
  qed
  then show ?thesis using w' key by auto
qed


lemma makedirs_from_is_dir:
  "makedirs_from ns cur cs = Inr ns' \<Longrightarrow> cs \<noteq> [] \<Longrightarrow> ns' (cur @ cs) = Some Dir"
proof (induction ns cur cs rule: makedirs_from.induct)
  case (1 ns cur)
  then show ?case by simp
next
  case (2 ns cur c cs)
  show ?case
  proof (cases "ns (cur @ [c])")
    case None
    then have b: "makedirs_from (ns(cur @ [c] \<mapsto> Dir)) (cur @ [c]) cs = Inr ns'"
      using "2.prems" by simp
    show ?thesis
    proof (cases "cs = []")
      case True
      then show ?thesis using b by auto
    next
      case False
      from "2.IH"(1)[OF None b False] show ?thesis by simp
    qed
  next
    case (Some nd)
    show ?thesis
    proof (cases nd)
      case (File d)
      then show ?thesis using Some "2.prems" by simp
    next
      case Dir
      then have b: "makedirs_from ns (cur @ [c]) cs = Inr ns'" using Some "2.prems" by simp
      show ?thesis
      proof (cases "cs = []")
        case True
        then show ?thesis using b Some Dir by auto
      next
        case False
        from "2.IH"(2)[OF Some Dir b False] show ?thesis by simp
      qed
    qed
  qed
qed

lemma os_makedirs_is_dir:
  assumes "os_makedirs w s = Inr w'"
  shows "node_at w' (os_key w s) = Some Dir"
proof -
  obtain ns where ns: "makedirs_from (nodes w) [] (os_key w s) = Inr ns" and w': "w' = w\<lparr>nodes := ns\<rparr>"
    using assms by (auto simp: os_makedirs_def split: sum.splits)
  show ?thesis
  proof (cases "os_key w s = []")
    case True
    then show ?thesis by (simp add: node_at_def)
  next
    case False
    then show ?thesis using makedirs_from_is_dir[OF ns False] w' by (simp add: node_at_def)
  qed
qed

lemma extraction_frame_refl: "chain w K \<Longrightarrow> extraction_frame K w w"
  by (simp add: extraction_frame_def)

lemma extraction_frame_trans:
  assumes "extraction_frame K w w1" "extraction_frame K w1 w2"
  shows "extraction_frame K w w2"
proof -
  have "cwd w2 = cwd w" "links w2 = links w" "chain w2 K"
    using assms by (simp_all add: extraction_frame_def)
  moreover have "nodes w2 k = nodes w k" if "\<not> prefix K k" for k
    using assms that by (simp add: extraction_frame_def)
  moreover have "nodes w2 k \<noteq> None" if "nodes w k \<noteq> None" for k
  proof -
    have "nodes w1 k \<noteq> None" using assms(1) that unfolding extraction_frame_def by blast
    then show ?thesis using assms(2) unfolding extraction_frame_def by blast
  qed
  ultimately show ?thesis unfolding extraction_frame_def by blast
qed

lemma os_makedirs_frame:
  assumes ch: "chain w K" and mk: "os_makedirs w s = Inr w'" and key: "prefix K (os_key w s)"
  shows "extraction_frame K w w'"
proof -
  have a: "\<forall>k. \<not> prefix K k \<longrightarrow> nodes w' k = nodes w k" "chain w' K"
    and b: "\<forall>k. nodes w k \<noteq> None \<longrightarrow> nodes w' k = nodes w k"
    using os_makedirs_under[OF ch mk key] by blast+
  have "\<forall>k. nodes w k \<noteq> None \<longrightarrow> nodes w' k \<noteq> None" using b by metis
  then show ?thesis
    unfolding extraction_frame_def using a os_makedirs_cwd[OF mk] by blast
qed

lemma write_file_frame:
  assumes ch: "chain w K" and wr: "write_file w s d = Inr w'" and key: "prefix K (os_key w s)"
  shows "extraction_frame K w w'"
  unfolding extraction_frame_def
  using write_file_under[OF ch wr key] write_file_cwd[OF wr] by blast

lemma extraction_frame_chain: "extraction_frame K w w' \<Longrightarrow> chain w' K"
  by (simp add: extraction_frame_def)

lemma extraction_frame_key: "extraction_frame K w w' \<Longrightarrow> os_key w' s = os_key w s"
  by (rule os_key_cong) (simp add: extraction_frame_def)

lemma write_file_is_file:
  "write_file w s d = Inr w' \<Longrightarrow> nodes w' (os_key w s) = Some (File d)"
  by (drule write_file_shape) simp

lemma extract_zip_member_frame:
  assumes b: "extract_zip_member v ms out w m = (w', r)" and ch: "chain w (os_key w out)"
  shows "extraction_frame (os_key w out) w w'"
proof -
  let ?K = "os_key w out"
  from extract_zip_member_cases[OF b] show ?thesis
  proof (elim disjE exE conjE)
    fix e assume "w' = w" "r = Inl e"
    then show ?thesis using ch by (simp add: extraction_frame_refl)
  next
    fix fp d w1 e
    assume s: "sanitize_archive_path w m out = Inr fp"
      and mk: "os_makedirs w (dirname fp) = Inr w1" and w: "w' = w1"
    have p: "prefix ?K (os_key w (dirname fp))" using sanitize_shape(3)[OF s] by simp
    show ?thesis using os_makedirs_frame[OF ch mk p] w by simp
  next
    fix fp d w1
    assume s: "sanitize_archive_path w m out = Inr fp"
      and mk: "os_makedirs w (dirname fp) = Inr w1"
      and wr: "write_file w1 fp d = Inr w'"
    have p: "prefix ?K (os_key w (dirname fp))" using sanitize_shape(3)[OF s] by simp
    have f1: "extraction_frame ?K w w1" using os_makedirs_frame[OF ch mk p] .
    have k1: "os_key w1 fp = os_key w fp" using f1 by (rule extraction_frame_key)
    have p2: "prefix ?K (os_key w1 fp)" using sanitize_shape(2)[OF s] k1 by simp
    have f2: "extraction_frame ?K w1 w'"
      using write_file_frame[OF extraction_frame_chain[OF f1] wr p2] .
    show ?thesis using extraction_frame_trans[OF f1 f2] .
  qed
qed

lemma extract_zip_member_present:
  assumes b: "extract_zip_member v ms out w m = (w', Inr x)"
  shows "\<exists>fp. sanitize_archive_path w m out = Inr fp \<and> node_at w' (os_key w fp) \<noteq> None"
proof -
  from extract_zip_member_cases[OF b] show ?thesis
  proof (elim disjE exE conjE)
    fix e :: exn assume "Inr x = Inl e"
    then show ?thesis by simp
  next
    fix fp d w1 e
    assume "Inr x = Inl e"
    then show ?thesis by simp
  next
    fix fp d w1
    assume s: "sanitize_archive_path w m out = Inr fp"
      and mk: "os_makedirs w (dirname fp) = Inr w1"
      and wr: "write_file w1 fp d = Inr w'"
    have "os_key w1 fp = os_key w fp" using os_makedirs_cwd[OF mk] by (intro os_key_cong) simp
    then have "nodes w' (os_key w fp) = Some (File d)" using write_file_is_file[OF wr] by simp
    then show ?thesis using s by (simp add: node_at_def)
  qed
qed


lemma extract_tar_member_cases:
  assumes "extract_tar_member v out w (n, kind, d) = (w', r)"
  shows "(w' = w \<and> (\<exists>e. r = Inl e))
       \<or> (\<exists>fp w1. sanitize_archive_path w n out = Inr fp \<and> kind = REGTYPE
            \<and> os_makedirs w (dirname fp) = Inr w1
            \<and> ((w' = w1 \<and> (\<exists>e. r = Inl e)) \<or> (write_file w1 fp d = Inr w' \<and> r \<noteq> Inr None)))
       \<or> (\<exists>fp. sanitize_archive_path w n out = Inr fp \<and> kind = DIRTYPE
            \<and> os_makedirs w fp = Inr w' \<and> r = Inr None)
       \<or> (\<exists>fp. sanitize_archive_path w n out = Inr fp \<and> kind \<noteq> REGTYPE \<and> kind \<noteq> DIRTYPE
            \<and> w' = w \<and> r = Inr None)"
proof (cases "sanitize_archive_path w n out")
  case (Inl e)
  then show ?thesis using assms by (auto simp: extract_tar_member_def)
next
  case s: (Inr fp)
  consider "kind = REGTYPE" | "kind = DIRTYPE" | "kind \<noteq> REGTYPE" "kind \<noteq> DIRTYPE" by blast
  then show ?thesis
  proof cases
    case 1
    show ?thesis
    proof (cases "os_makedirs w (dirname fp)")
      case (Inl e)
      then show ?thesis using assms s 1 by (auto simp: extract_tar_member_def)
    next
      case mk: (Inr w1)
      show ?thesis
      proof (cases "write_file w1 fp d")
        case (Inl e)
        then show ?thesis using assms s 1 mk by (auto simp: extract_tar_member_def)
      next
        case wr: (Inr w2)
        have "w' = w2 \<and> r \<noteq> Inr None"
          using assms s 1 mk wr
          by (cases "get_relative_path v w2 fp") (auto simp: extract_tar_member_def)
        then show ?thesis using s 1 mk wr by auto
      qed
    qed
  next
    case 2
    show ?thesis
    proof (cases "os_makedirs w fp")
      case (Inl e)
      then show ?thesis using assms s 2 by (auto simp: extract_tar_member_def)
    next
      case (Inr w1)
      then show ?thesis using assms s 2 by (auto simp: extract_tar_member_def)
    qed
  next
    case 3
    then show ?thesis using assms s by (auto simp: extract_tar_member_def)
  qed
qed

lemma extract_tar_member_frame:
  assumes b: "extract_tar_member v out w (n, kind, d) = (w', r)" and ch: "chain w (os_key w out)"
  shows "extraction_frame (os_key w out) w w'"
proof -
  let ?K = "os_key w out"
  from extract_tar_member_cases[OF b] show ?thesis
  proof (elim disjE exE conjE)
    fix e assume "w' = w" "r = Inl e"
    then show ?thesis using ch by (simp add: extraction_frame_refl)
  next
    fix fp w1 e
    assume s: "sanitize_archive_path w n out = Inr fp"
      and mk: "os_makedirs w (dirname fp) = Inr w1" and w: "w' = w1"
    have p: "prefix ?K (os_key w (dirname fp))" using sanitize_shape(3)[OF s] by simp
    show ?thesis using os_makedirs_frame[OF ch mk p] w by simp
  next
    fix fp w1
    assume s: "sanitize_archive_path w n out = Inr fp"
      and mk: "os_makedirs w (dirname fp) = Inr w1"
      and wr: "write_file w1 fp d = Inr w'"
    have p: "prefix ?K (os_key w (dirname fp))" using sanitize_shape(3)[OF s] by simp
    have f1: "extraction_frame ?K w w1" using os_makedirs_frame[OF ch mk p] .
    have k1: "os_key w1 fp = os_key w fp" using f1 by (rule extraction_frame_key)
    have p2: "prefix ?K (os_key w1 fp)" using sanitize_shape(2)[OF s] k1 by simp
    have f2: "extraction_frame ?K w1 w'"
      using write_file_frame[OF extraction_frame_chain[OF f1] wr p2] .
    show ?thesis using extraction_frame_trans[OF f1 f2] .
  next
    fix fp
    assume s: "sanitize_archive_path w n out = Inr fp" and mk: "os_makedirs w fp = Inr w'"
    have p: "prefix ?K (os_key w fp)" using sanitize_shape(2)[OF s] by simp
    show ?thesis using os_makedirs_frame[OF ch mk p] .
  next
    fix fp assume "w' = w"
    then show ?thesis using ch by (simp add: extraction_frame_refl)
  qed
qed

lemma extract_tar_member_present:
  assumes b: "extract_tar_member v out w (n, kind, d) = (w', Inr x)"
    and k: "kind = REGTYPE \<or> kind = DIRTYPE"
  shows "\<exists>fp. sanitize_archive_path w n out = Inr fp \<and> node_at w' (os_key w fp) \<noteq> None"
proof -
  from extract_tar_member_cases[OF b] show ?thesis
  proof (elim disjE exE conjE)
    fix e :: exn assume "Inr x = Inl e"
    then show ?thesis by simp
  next
    fix fp w1 and e :: exn
    assume "Inr x = Inl e"
    then show ?thesis by simp
  next
    fix fp w1
    assume s: "sanitize_archive_path w n out = Inr fp"
      and mk: "os_makedirs w (dirname fp) = Inr w1"
      and wr: "write_file w1 fp d = Inr w'"
    have "os_key w1 fp = os_key w fp" using os_makedirs_cwd[OF mk] by (intro os_key_cong) simp
    then have "nodes w' (os_key w fp) = Some (File d)" using write_file_is_file[OF wr] by simp
    then show ?thesis using s by (simp add: node_at_def)
  next
    fix fp
    assume s: "sanitize_archive_path w n out = Inr fp" and mk: "os_makedirs w fp = Inr w'"
    show ?thesis using os_makedirs_is_dir[OF mk] s by simp
  next
    fix fp assume "kind \<noteq> REGTYPE" "kind \<noteq> DIRTYPE"
    then show ?thesis using k by simp
  qed
qed

lemma extract_loop_inv:
  assumes step: "\<And>w m w' r. I w \<Longrightarrow> body w m = (w', r) \<Longrightarrow> I w'"
    and "I w" and "extract_loop body w ms acc = (w', r)"
  shows "I w'"
  using assms(2,3)
proof (induction ms arbitrary: w acc)
  case Nil
  then show ?case by simp
next
  case (Cons m ms)
  obtain w1 r1 where b: "body w m = (w1, r1)" by (cases "body w m")
  have i1: "I w1" using step[OF Cons.prems(1) b] .
  show ?case
  proof (cases r1)
    case (Inl e)
    then show ?thesis using Cons.prems(2) b i1 by simp
  next
    case (Inr x)
    show ?thesis
    proof (cases x)
      case None
      then have "extract_loop body w1 ms acc = (w', r)" using Cons.prems(2) b Inr by simp
      then show ?thesis using Cons.IH[OF i1] by blast
    next
      case (Some y)
      then have "extract_loop body w1 ms (acc @ [y]) = (w', r)" using Cons.prems(2) b Inr by simp
      then show ?thesis using Cons.IH[OF i1] by blast
    qed
  qed
qed

lemma extract_loop_append:
  "extract_loop body w (pre @ rest) acc =
     (case extract_loop body w pre acc of
        (w', Inl e) \<Rightarrow> (w', Inl e)
      | (w', Inr acc') \<Rightarrow> extract_loop body w' rest acc')"
proof (induction pre arbitrary: w acc)
  case Nil
  then show ?case by simp
next
  case (Cons m pre)
  obtain w1 r1 where b: "body w m = (w1, r1)" by (cases "body w m")
  show ?case
  proof (cases r1)
    case (Inl e)
    then show ?thesis using b by simp
  next
    case (Inr x)
    then show ?thesis using b Cons.IH by (cases x) simp_all
  qed
qed

lemma extract_loop_present:
  assumes step: "\<And>w m w' r. I w \<Longrightarrow> body w m = (w', r) \<Longrightarrow> I w'"
    and est: "\<And>w m w' x. I w \<Longrightarrow> body w m = (w', Inr x) \<Longrightarrow> Q m w'"
    and stab: "\<And>w m m' w' r. I w \<Longrightarrow> Q m w \<Longrightarrow> body w m' = (w', r) \<Longrightarrow> Q m w'"
    and "I w" and "extract_loop body w ms acc = (w', Inr acc')" and "m \<in> set ms"
  shows "Q m w'"
  using assms(4,5,6)
proof (induction ms arbitrary: w acc)
  case Nil
  then show ?case by simp
next
  case (Cons m' ms)
  obtain w1 r1 where b: "body w m' = (w1, r1)" by (cases "body w m'")
  have i1: "I w1" using step[OF Cons.prems(1) b] .
  obtain x where r1: "r1 = Inr x" using Cons.prems(2) b by (cases r1) auto
  obtain acc1 where rest: "extract_loop body w1 ms acc1 = (w', Inr acc')"
    using Cons.prems(2) b r1 by (cases x) auto
  show ?case
  proof (cases "m \<in> set ms")
    case True
    then show ?thesis using Cons.IH[OF i1 rest] by blast
  next
    case False
    then have "m = m'" using Cons.prems(3) by simp
    then have q1: "Q m w1" using est[OF Cons.prems(1)] b r1 by blast
    have "I w' \<and> Q m w'"
    proof (rule extract_loop_inv[where I = "\<lambda>w. I w \<and> Q m w" and body = body, OF _ _ rest])
      show "I w1 \<and> Q m w1" using i1 q1 by simp
    next
      fix w m'' w'' r''
      assume "I w \<and> Q m w" "body w m'' = (w'', r'')"
      then show "I w'' \<and> Q m w''" using step stab by blast
    qed
    then show ?thesis by simp
  qed
qed

lemma makedirs_from_prefix_dirs:
  "makedirs_from ns cur cs = Inr ns' \<Longrightarrow> 0 < i \<Longrightarrow> i \<le> length cs \<Longrightarrow>
     ns' (cur @ take i cs) = Some Dir"
proof (induction ns cur cs arbitrary: i rule: makedirs_from.induct)
  case (1 ns cur)
  then show ?case by simp
next
  case (2 ns cur c cs)
  obtain ns1 where rec: "makedirs_from ns1 (cur @ [c]) cs = Inr ns'" and d1: "ns1 (cur @ [c]) = Some Dir"
    and ih: "\<And>j. 0 < j \<Longrightarrow> j \<le> length cs \<Longrightarrow> ns' ((cur @ [c]) @ take j cs) = Some Dir"
  proof (cases "ns (cur @ [c])")
    case None
    then have b: "makedirs_from (ns(cur @ [c] \<mapsto> Dir)) (cur @ [c]) cs = Inr ns'"
      using "2.prems"(1) by simp
    show ?thesis
      using that[OF b _ "2.IH"(1)[OF None b]] by simp
  next
    case (Some nd)
    show ?thesis
    proof (cases nd)
      case (File d)
      then show ?thesis using Some "2.prems"(1) by simp
    next
      case Dir
      then have b: "makedirs_from ns (cur @ [c]) cs = Inr ns'" using Some "2.prems"(1) by simp
      show ?thesis using that[OF b _ "2.IH"(2)[OF Some Dir b]] Some Dir by simp
    qed
  qed
  show ?case
  proof (cases i)
    case 0
    then show ?thesis using "2.prems" by simp
  next
    case (Suc j)
    show ?thesis
    proof (cases j)
      case 0
      then show ?thesis using Suc makedirs_from_keeps[OF rec d1] by simp
    next
      case (Suc j')
      then have "0 < j" "j \<le> length cs" using \<open>i = Suc j\<close> "2.prems" by auto
      from ih[OF this] show ?thesis using \<open>i = Suc j\<close> by simp
    qed
  qed
qed

lemma os_makedirs_chain:
  assumes "os_makedirs w s = Inr w'"
  shows "chain w' (os_key w s)"
proof -
  obtain ns where ns: "makedirs_from (nodes w) [] (os_key w s) = Inr ns" and w': "w' = w\<lparr>nodes := ns\<rparr>"
    using assms by (auto simp: os_makedirs_def split: sum.splits)
  show ?thesis
    unfolding chain_iff
  proof (intro allI impI)
    fix i assume i: "i \<le> length (os_key w s)"
    show "node_at w' (take i (os_key w s)) = Some Dir"
    proof (cases "i = 0")
      case True
      then show ?thesis by (simp add: node_at_def)
    next
      case False
      then have "ns ([] @ take i (os_key w s)) = Some Dir"
        using i by (intro makedirs_from_prefix_dirs[OF ns]) auto
      then show ?thesis using w' by (simp add: node_at_def)
    qed
  qed
qed

lemma os_makedirs_new_dirs:
  assumes "os_makedirs w s = Inr w'"
  shows "nodes w' k = nodes w k \<or> (nodes w k = None \<and> nodes w' k = Some Dir)"
proof -
  obtain ns where ns: "makedirs_from (nodes w) [] (os_key w s) = Inr ns" and w': "w' = w\<lparr>nodes := ns\<rparr>"
    using assms by (auto simp: os_makedirs_def split: sum.splits)
  show ?thesis using makedirs_from_changes[OF ns, of k] w' by auto
qed

lemma ensure_parent_dir_new_dirs:
  assumes "ensure_parent_dir w s = Inr w'"
  shows "nodes w' k = nodes w k \<or> (nodes w k = None \<and> nodes w' k = Some Dir)"
  using assms os_makedirs_new_dirs
  by (auto simp: ensure_parent_dir_def Let_def split: if_splits)

lemma failed_mk_result: "failed (mk_result v w False a s k)"
  by (auto simp: failed_def mk_result_def split: sum.splits)


lemma failed_except: "failed (decompress_file_except v w e)"
  by (cases e) (simp_all add: decompress_file_except_def failed_mk_result, simp add: failed_def)

lemma zip_step:
  assumes f: "extraction_frame (os_key w0 out) w0 w"
    and b: "extract_zip_member v ms out w m = (w', r)"
  shows "extraction_frame (os_key w0 out) w0 w'"
proof -
  have k: "os_key w out = os_key w0 out" using f by (rule extraction_frame_key)
  have "chain w (os_key w out)" using extraction_frame_chain[OF f] k by simp
  from extract_zip_member_frame[OF b this] have "extraction_frame (os_key w0 out) w w'"
    using k by simp
  with f show ?thesis by (rule extraction_frame_trans)
qed

lemma tar_step:
  assumes f: "extraction_frame (os_key w0 out) w0 w"
    and b: "extract_tar_member v out w m = (w', r)"
  shows "extraction_frame (os_key w0 out) w0 w'"
proof -
  obtain n kind d where m: "m = (n, kind, d)" by (cases m)
  have k: "os_key w out = os_key w0 out" using f by (rule extraction_frame_key)
  have "chain w (os_key w out)" using extraction_frame_chain[OF f] k by simp
  from extract_tar_member_frame[OF b[unfolded m] this]
  have "extraction_frame (os_key w0 out) w w'" using k by simp
  with f show ?thesis by (rule extraction_frame_trans)
qed

lemma read_file_node: "read_file w s = Inr d \<longleftrightarrow> node_at w (os_key w s) = Some (File d)"
  by (auto simp: read_file_def split: option.splits node.splits)

section \<open>Archive extraction\<close>

lemmas path_eval = os_key_def isabs_def norm_step_def dirname_def rsplit_sep_def rstrip_sep_def
  os_path_join_def suffix_to_prefix basename_def normpath_def lstrip_sep_def initial_slashes_of_def
  abspath_def getcwd_def base_path_of_def splitext_def
lemmas resolve_eval = resolve_under_restriction_def path_resolve_def Path_def path_join_def
  path_str_def MAXSYMLINKS_def get_relative_path_def relative_to_def display_root_of_def
lemmas fs_eval = node_at_def read_file_def write_file_def os_makedirs_def ensure_parent_dir_def
  os_path_exists_def os_path_isfile_def os_path_islink_def os_path_isdir_def
lemmas decompress_eval = decompress_file_def decompress_file_try_def decompress_archive_def
  extract_zip_member_def extract_tar_member_def sanitize_archive_path_def zip_read_def
  mk_result_def try_bind_def decompress_file_except_def

text \<open>
  Claim C2 (the code differs). \<open>_sanitize_archive_path\<close> compares path strings
  (\<open>os.path.abspath\<close>) and never resolves symbolic links, although its docstring says it
  prevents directory traversal and its comment that the final path is under the output
  directory. Let \<open>/r/out/link\<close> be a symbolic link to \<open>/tmp\<close> and let the archive hold the
  members \<open>link/x.txt\<close> and \<open>../evil.txt\<close>. The first member passes the sanitizer as
  \<open>/r/out/link/x.txt\<close>, a path whose canonical location is \<open>/tmp/x.txt\<close>, outside the output
  directory and outside the root: the loop opens it for writing, and the file is created
  there before the second member aborts the extraction. The tool's own confinement check,
  which resolves links, refuses that same path.
\<close>

theorem sanitizer_accepts_member_through_symlink:
  "resolve_under_restriction example_valves link_slip_world
       (os_path_join (base_path_of None) ''out'') = Inr ''/r/out''
   \<and> read_file link_slip_world ''/r/evil.zip''
       = Inr (ZipData [(''link/x.txt'', Raw ''x''), (''../evil.txt'', Raw ''y'')])
   \<and> sanitize_archive_path link_slip_world ''link/x.txt'' ''/r/out'' = Inr ''/r/out/link/x.txt''
   \<and> path_resolve link_slip_world (Path ''/r/out/link/x.txt'') = Inr (''/'', [''tmp'', ''x.txt''])
   \<and> \<not> inside_root (''/'', [''r'', ''out'']) (''/'', [''tmp'', ''x.txt''])
   \<and> resolve_under_restriction example_valves link_slip_world ''/r/out/link/x.txt''
       = Inl (ValueError ''Path escapes restriction root: /r/out/link/x.txt'')
   \<and> sanitize_archive_path link_slip_world ''../evil.txt'' ''/r/out''
       = Inl (ValueError ''Unsafe archive member path: ../evil.txt'')"
  by (simp add: example_valves_def link_slip_world_def link_slip_archive_def path_eval
        resolve_eval fs_eval sanitize_archive_path_def inside_root_def)

lemma reaches_extraction_try:
  assumes "reaches_extraction v w fn od bd fp out w2"
  shows "decompress_file_try v w fn od bd =
           (case decompress_archive v w2 fp out fn of
              (w3, Inl e) \<Rightarrow> (w3, Inl e)
            | (w3, Inr extracted_files) \<Rightarrow>
                (w3, try_bind (get_relative_path v w3 out) (\<lambda>out'.
                       mk_result v w3 True ''decompress'' ''file''
                         [(''message'', VStr ''Decompressed successfully''),
                          (''output'', VStr out'),
                          (''extracted_files'', VList extracted_files),
                          (''count'', VInt (int (length extracted_files)))])))"
  using assms
  by (auto simp: reaches_extraction_def decompress_file_try_def Let_def)

lemma reaches_extraction_abort:
  assumes "reaches_extraction v w fn od bd fp out w2"
    and "decompress_archive v w2 fp out fn = (w3, Inl (ValueError msg))"
  shows "decompress_file v w fn od bd =
           (w3, mk_result v w3 False ''decompress'' ''file'' [(''error'', VStr msg)])"
  using assms(2)
  by (simp add: decompress_file_def reaches_extraction_try[OF assms(1)] decompress_file_except_def)

lemma reaches_extraction_chain:
  assumes "reaches_extraction v w fn od bd fp out w2"
  shows "chain w2 (os_key w2 out)"
proof -
  obtain w1 where e1: "ensure_parent_dir w out = Inr w1" and e2: "os_makedirs w1 out = Inr w2"
    using assms by (auto simp: reaches_extraction_def)
  have "os_key w2 out = os_key w1 out"
    using os_makedirs_cwd[OF e2] by (intro os_key_cong) simp
  then show ?thesis using os_makedirs_chain[OF e2] by simp
qed

lemma frame_present:
  "extraction_frame K w w' \<Longrightarrow> node_at w k \<noteq> None \<Longrightarrow> node_at w' k \<noteq> None"
  by (auto simp: extraction_frame_def node_at_def split: if_splits)

lemma zip_prefix_present:
  assumes ch: "chain w2 (os_key w2 out)"
    and run: "extract_loop (extract_zip_member v ms out) w2 pre [] = (w3, Inr done)"
  shows "list_all (\<lambda>n. \<exists>fp. sanitize_archive_path w2 n out = Inr fp
             \<and> node_at w3 (os_key w2 fp) \<noteq> None
             \<and> prefix (os_key w2 out) (os_key w2 fp)) pre"
proof -
  let ?K = "os_key w2 out"
  let ?I = "extraction_frame ?K w2"
  let ?Q = "\<lambda>n w'. \<exists>fp. sanitize_archive_path w2 n out = Inr fp
             \<and> node_at w' (os_key w2 fp) \<noteq> None \<and> prefix ?K (os_key w2 fp)"
  have refl: "?I w2" using ch by (rule extraction_frame_refl)
  have est: "?Q n w'" if i: "?I w" and b: "extract_zip_member v ms out w n = (w', Inr x)" for w n w' x
  proof -
    have c: "cwd w = cwd w2" using i by (simp add: extraction_frame_def)
    obtain fp where s: "sanitize_archive_path w n out = Inr fp" and p: "node_at w' (os_key w fp) \<noteq> None"
      using extract_zip_member_present[OF b] by blast
    have s2: "sanitize_archive_path w2 n out = Inr fp" using s sanitize_cong[OF c] by simp
    have "os_key w fp = os_key w2 fp" using c by (rule os_key_cong)
    then show ?thesis using s2 p sanitize_shape(2)[OF s2] by auto
  qed
  have stab: "?Q n w'" if i: "?I w" and q: "?Q n w" and b: "extract_zip_member v ms out w m' = (w', r)"
    for w n m' w' r
  proof -
    have k: "os_key w out = ?K" using i by (rule extraction_frame_key)
    have "chain w (os_key w out)" using extraction_frame_chain[OF i] k by simp
    from extract_zip_member_frame[OF b this] have "extraction_frame ?K w w'" using k by simp
    then show ?thesis using q frame_present by blast
  qed
  have "?Q n w3" if "n \<in> set pre" for n
    by (rule extract_loop_present[where I = ?I and Q = ?Q, OF zip_step est stab refl run that])
  then show ?thesis by (simp add: list_all_iff)
qed

lemma tar_prefix_present:
  assumes ch: "chain w2 (os_key w2 out)"
    and run: "extract_loop (extract_tar_member v out) w2 pre [] = (w3, Inr done)"
  shows "list_all (\<lambda>(n, kind, d). (kind = REGTYPE \<or> kind = DIRTYPE) \<longrightarrow>
             (\<exists>fp. sanitize_archive_path w2 n out = Inr fp
                \<and> node_at w3 (os_key w2 fp) \<noteq> None
                \<and> prefix (os_key w2 out) (os_key w2 fp))) pre"
proof -
  let ?K = "os_key w2 out"
  let ?I = "extraction_frame ?K w2"
  let ?Q = "\<lambda>m w'. case m of (n, kind, d) \<Rightarrow> (kind = REGTYPE \<or> kind = DIRTYPE) \<longrightarrow>
             (\<exists>fp. sanitize_archive_path w2 n out = Inr fp
                \<and> node_at w' (os_key w2 fp) \<noteq> None \<and> prefix ?K (os_key w2 fp))"
  have refl: "?I w2" using ch by (rule extraction_frame_refl)
  have est: "?Q m w'" if i: "?I w" and b: "extract_tar_member v out w m = (w', Inr x)" for w m w' x
  proof -
    obtain n kind d where m: "m = (n, kind, d)" by (cases m)
    have c: "cwd w = cwd w2" using i by (simp add: extraction_frame_def)
    have "\<exists>fp. sanitize_archive_path w2 n out = Inr fp
                \<and> node_at w' (os_key w2 fp) \<noteq> None \<and> prefix ?K (os_key w2 fp)"
      if kd: "kind = REGTYPE \<or> kind = DIRTYPE"
    proof -
      obtain fp where s: "sanitize_archive_path w n out = Inr fp"
        and p: "node_at w' (os_key w fp) \<noteq> None"
        using extract_tar_member_present[OF b[unfolded m] kd] by blast
      have s2: "sanitize_archive_path w2 n out = Inr fp" using s sanitize_cong[OF c] by simp
      have "os_key w fp = os_key w2 fp" using c by (rule os_key_cong)
      then show ?thesis using s2 p sanitize_shape(2)[OF s2] by auto
    qed
    then show ?thesis using m by simp
  qed
  have stab: "?Q m w'" if i: "?I w" and q: "?Q m w" and b: "extract_tar_member v out w m' = (w', r)"
    for w m m' w' r
  proof -
    obtain n' kind' d' where m': "m' = (n', kind', d')" by (cases m')
    have k: "os_key w out = ?K" using i by (rule extraction_frame_key)
    have "chain w (os_key w out)" using extraction_frame_chain[OF i] k by simp
    from extract_tar_member_frame[OF b[unfolded m'] this]
    have f: "extraction_frame ?K w w'" using k by simp
    obtain n kind d where m: "m = (n, kind, d)" by (cases m)
    show ?thesis using q frame_present[OF f] unfolding m by auto
  qed
  have "?Q m w3" if "m \<in> set pre" for m
    by (rule extract_loop_present[where I = ?I and Q = ?Q, OF tar_step est stab refl run that])
  then show ?thesis by (auto simp: list_all_iff)
qed

lemma on_disk_under_iff:
  "on_disk_under w out w' n \<longleftrightarrow>
     (\<exists>fp. sanitize_archive_path w n out = Inr fp \<and> node_at w' (os_key w fp) \<noteq> None
          \<and> prefix (os_key w out) (os_key w fp))"
  by (cases "sanitize_archive_path w n out") (simp_all add: on_disk_under_def)

text \<open>
  Claim C10. Let \<open>decompress_file\<close> reach the extraction (world \<open>w2\<close>), let the loop extract
  the members before position \<open>k\<close> without an exception, reaching the world \<open>w3\<close>, and let the
  member at position \<open>k\<close> be rejected by the sanitizer. Then the call ends in that same world
  \<open>w3\<close> (nothing is rolled back: every member extracted so far is still a node under the
  output directory), and the envelope is the failure envelope built from the error message
  alone; the list of extracted files is not part of it. The first half is the ZIP loop,
  the second the TAR loop, where only regular files and directories are extracted.
\<close>

theorem unsafe_member_aborts_without_rollback:
  assumes reach:
    "reaches_extraction v w file_name output_directory base_dir file_path output_path w2"
  shows "(suffix ''.zip'' file_name
          \<and> read_file w2 file_path = Inr (ZipData ms) \<and> map fst ms = pre @ m # post
          \<and> extract_loop (extract_zip_member v ms output_path) w2 pre [] = (w3, Inr done)
          \<and> sanitize_archive_path w3 m output_path = Inl (ValueError msg)
         \<longrightarrow> decompress_file v w file_name output_directory base_dir
               = (w3, mk_result v w3 False ''decompress'' ''file'' [(''error'', VStr msg)])
           \<and> list_all (on_disk_under w2 output_path w3) pre)
       \<and> (\<not> suffix ''.zip'' file_name
          \<and> (suffix ''.tar'' file_name \<or> suffix ''.tar.gz'' file_name \<or> suffix ''.tgz'' file_name)
          \<and> read_file w2 file_path = Inr (TarData gz (tpre @ (tn, tk, td) # tpost))
          \<and> (gz \<or> \<not> (suffix ''.tar.gz'' file_name \<or> suffix ''.tgz'' file_name))
          \<and> extract_loop (extract_tar_member v output_path) w2 tpre [] = (w4, Inr done')
          \<and> sanitize_archive_path w4 tn output_path = Inl (ValueError msg')
         \<longrightarrow> decompress_file v w file_name output_directory base_dir
               = (w4, mk_result v w4 False ''decompress'' ''file'' [(''error'', VStr msg')])
           \<and> list_all (\<lambda>(n, kind, d). (kind = REGTYPE \<or> kind = DIRTYPE) \<longrightarrow>
                          on_disk_under w2 output_path w4 n) tpre)"
proof (intro conjI impI)
  have ch: "chain w2 (os_key w2 output_path)" using reach by (rule reaches_extraction_chain)
  {
    assume h: "suffix ''.zip'' file_name
          \<and> read_file w2 file_path = Inr (ZipData ms) \<and> map fst ms = pre @ m # post
          \<and> extract_loop (extract_zip_member v ms output_path) w2 pre [] = (w3, Inr done)
          \<and> sanitize_archive_path w3 m output_path = Inl (ValueError msg)"
    then have run: "extract_loop (extract_zip_member v ms output_path) w2 pre [] = (w3, Inr done)"
      and un: "sanitize_archive_path w3 m output_path = Inl (ValueError msg)" by simp_all
    have "extract_loop (extract_zip_member v ms output_path) w2 (pre @ m # post) []
            = (w3, Inl (ValueError msg))"
      using run un by (simp add: extract_loop_append extract_zip_member_def)
    then have "decompress_archive v w2 file_path output_path file_name = (w3, Inl (ValueError msg))"
      using h by (simp add: decompress_archive_def)
    then show "decompress_file v w file_name output_directory base_dir
               = (w3, mk_result v w3 False ''decompress'' ''file'' [(''error'', VStr msg)])"
      by (rule reaches_extraction_abort[OF reach])
    show "list_all (on_disk_under w2 output_path w3) pre"
      using zip_prefix_present[OF ch run] by (auto simp: list_all_iff on_disk_under_iff)
  }
  {
    assume h: "\<not> suffix ''.zip'' file_name
          \<and> (suffix ''.tar'' file_name \<or> suffix ''.tar.gz'' file_name \<or> suffix ''.tgz'' file_name)
          \<and> read_file w2 file_path = Inr (TarData gz (tpre @ (tn, tk, td) # tpost))
          \<and> (gz \<or> \<not> (suffix ''.tar.gz'' file_name \<or> suffix ''.tgz'' file_name))
          \<and> extract_loop (extract_tar_member v output_path) w2 tpre [] = (w4, Inr done')
          \<and> sanitize_archive_path w4 tn output_path = Inl (ValueError msg')"
    then have run: "extract_loop (extract_tar_member v output_path) w2 tpre [] = (w4, Inr done')"
      and un: "sanitize_archive_path w4 tn output_path = Inl (ValueError msg')" by simp_all
    have "extract_loop (extract_tar_member v output_path) w2 (tpre @ (tn, tk, td) # tpost) []
            = (w4, Inl (ValueError msg'))"
      using run un by (simp add: extract_loop_append extract_tar_member_def)
    then have "decompress_archive v w2 file_path output_path file_name = (w4, Inl (ValueError msg'))"
      using h by (auto simp: decompress_archive_def)
    then show "decompress_file v w file_name output_directory base_dir
               = (w4, mk_result v w4 False ''decompress'' ''file'' [(''error'', VStr msg')])"
      by (rule reaches_extraction_abort[OF reach])
    show "list_all (\<lambda>(n, kind, d). (kind = REGTYPE \<or> kind = DIRTYPE) \<longrightarrow>
                          on_disk_under w2 output_path w4 n) tpre"
      using tar_prefix_present[OF ch run] by (auto simp: list_all_iff on_disk_under_iff)
  }
qed

lemmas world_eval = example_valves_def zip_slip_world_def zip_slip_archive_def zip_slip_started_def
  zip_slip_partial_def tar_slip_world_def tar_slip_archive_def tar_slip_started_def
  tar_slip_partial_def

theorem unsafe_member_aborts_without_rollback_witness:
  "reaches_extraction example_valves zip_slip_world ''evil.zip'' ''out'' None
       ''/r/evil.zip'' ''/r/out'' zip_slip_started
   \<and> decompress_file example_valves zip_slip_world ''evil.zip'' ''out'' None
       = (zip_slip_partial,
          Inr \<lparr>ok = False, action = ''decompress'', subject_type = ''file'',
               payload = [(''error'', VStr ''Unsafe archive member path: ../evil.txt'')]\<rparr>)
   \<and> on_disk_under zip_slip_started ''/r/out'' zip_slip_partial ''ok.txt''
   \<and> nodes zip_slip_partial [''r'', ''out'', ''ok.txt''] = Some (File (Raw ''a''))
   \<and> reaches_extraction example_valves tar_slip_world ''evil.tar'' ''out'' None
       ''/r/evil.tar'' ''/r/out'' tar_slip_started
   \<and> decompress_file example_valves tar_slip_world ''evil.tar'' ''out'' None
       = (tar_slip_partial,
          Inr \<lparr>ok = False, action = ''decompress'', subject_type = ''file'',
               payload = [(''error'', VStr ''Unsafe archive member path: ../evil.txt'')]\<rparr>)
   \<and> on_disk_under tar_slip_started ''/r/out'' tar_slip_partial ''d/ok.txt''
   \<and> nodes tar_slip_partial [''r'', ''out'', ''d'', ''ok.txt''] = Some (File (Raw ''a''))"
proof -
  have zr: "reaches_extraction example_valves zip_slip_world ''evil.zip'' ''out'' None
       ''/r/evil.zip'' ''/r/out'' zip_slip_started"
    by (simp add: reaches_extraction_def world_eval path_eval resolve_eval fs_eval)
  have tr: "reaches_extraction example_valves tar_slip_world ''evil.tar'' ''out'' None
       ''/r/evil.tar'' ''/r/out'' tar_slip_started"
    by (simp add: reaches_extraction_def world_eval path_eval resolve_eval fs_eval)
  have zh: "suffix ''.zip'' ''evil.zip''
      \<and> read_file zip_slip_started ''/r/evil.zip''
          = Inr (ZipData [(''ok.txt'', Raw ''a''), (''../evil.txt'', Raw ''x'')])
      \<and> map fst [(''ok.txt'', Raw ''a''), (''../evil.txt'', Raw ''x'')]
          = [''ok.txt''] @ ''../evil.txt'' # []
      \<and> extract_loop (extract_zip_member example_valves
             [(''ok.txt'', Raw ''a''), (''../evil.txt'', Raw ''x'')] ''/r/out'')
           zip_slip_started [''ok.txt''] [] = (zip_slip_partial, Inr [''out/ok.txt''])
      \<and> sanitize_archive_path zip_slip_partial ''../evil.txt'' ''/r/out''
          = Inl (ValueError ''Unsafe archive member path: ../evil.txt'')"
    by (simp add: world_eval decompress_eval path_eval resolve_eval fs_eval)
  have th: "\<not> suffix ''.zip'' ''evil.tar''
      \<and> (suffix ''.tar'' ''evil.tar'' \<or> suffix ''.tar.gz'' ''evil.tar'' \<or> suffix ''.tgz'' ''evil.tar'')
      \<and> read_file tar_slip_started ''/r/evil.tar''
          = Inr (TarData False
                  ([(''d'', DIRTYPE, Raw []), (''d/ok.txt'', REGTYPE, Raw ''a''),
                    (''lnk'', SYMTYPE, Raw [])] @ (''../evil.txt'', REGTYPE, Raw ''x'') # []))
      \<and> (False \<or> \<not> (suffix ''.tar.gz'' ''evil.tar'' \<or> suffix ''.tgz'' ''evil.tar''))
      \<and> extract_loop (extract_tar_member example_valves ''/r/out'') tar_slip_started
           [(''d'', DIRTYPE, Raw []), (''d/ok.txt'', REGTYPE, Raw ''a''), (''lnk'', SYMTYPE, Raw [])] []
          = (tar_slip_partial, Inr [''out/d/ok.txt''])
      \<and> sanitize_archive_path tar_slip_partial ''../evil.txt'' ''/r/out''
          = Inl (ValueError ''Unsafe archive member path: ../evil.txt'')"
    by (simp add: world_eval decompress_eval path_eval resolve_eval fs_eval)
  have mr: "mk_result example_valves w False ''decompress'' ''file'' kw
      = Inr \<lparr>ok = False, action = ''decompress'', subject_type = ''file'', payload = kw\<rparr>" for w kw
    by (simp add: mk_result_def example_valves_def)
  have n1: "nodes zip_slip_partial [''r'', ''out'', ''ok.txt''] = Some (File (Raw ''a''))"
    and n2: "nodes tar_slip_partial [''r'', ''out'', ''d'', ''ok.txt''] = Some (File (Raw ''a''))"
    by (simp_all add: world_eval)
  from unsafe_member_aborts_without_rollback[OF zr, THEN conjunct1, THEN mp, OF zh]
       unsafe_member_aborts_without_rollback[OF tr, THEN conjunct2, THEN mp, OF th]
  show ?thesis using zr tr n1 n2 by (simp add: mr)
qed

lemma realpath_walk_normal:
  "realpath_walk fuel lk cur rest = Inr p \<Longrightarrow> \<forall>c \<in> set cur. normal_part c \<Longrightarrow>
   \<forall>c \<in> set rest. CHR ''/'' \<notin> set c \<Longrightarrow> \<forall>c \<in> set p. normal_part c"
proof (induction fuel lk cur rest rule: realpath_walk.induct)
  case (1 fuel lk cur)
  then show ?case by simp
next
  case (2 fuel lk cur c rest)
  have rest: "\<forall>x \<in> set rest. CHR ''/'' \<notin> set x" and c: "CHR ''/'' \<notin> set c"
    using "2.prems"(3) by simp_all
  consider "c = [] \<or> c = ''.''" | "c = ''..''" | "normal_part c"
    using c by (auto simp: normal_part_def)
  then show ?case
  proof cases
    case 1
    then have "realpath_walk fuel lk cur rest = Inr p" using "2.prems"(1) by auto
    then show ?thesis using "2.IH"(1)[OF 1] "2.prems"(2) rest by blast
  next
    case 2
    then have n: "\<not> (c = [] \<or> c = ''.'')" by simp
    have "realpath_walk fuel lk (butlast cur) rest = Inr p" using "2.prems"(1) 2 by simp
    moreover have "\<forall>x \<in> set (butlast cur). normal_part x"
      using "2.prems"(2) by (auto dest: in_set_butlastD)
    ultimately show ?thesis using "2.IH"(2)[OF n 2] rest by blast
  next
    case 3
    then have n1: "\<not> (c = [] \<or> c = ''.'')" and n2: "c \<noteq> ''..''"
      by (auto simp: normal_part_def)
    show ?thesis
    proof (cases "lk (cur @ [c])")
      case None
      then have "realpath_walk fuel lk (cur @ [c]) rest = Inr p"
        using "2.prems"(1) n1 n2 by simp
      moreover have "\<forall>x \<in> set (cur @ [c]). normal_part x" using "2.prems"(2) 3 by simp
      ultimately show ?thesis using "2.IH"(3)[OF n1 n2 None] rest by blast
    next
      case (Some target)
      show ?thesis
      proof (cases fuel)
        case 0
        then show ?thesis using "2.prems"(1) n1 n2 Some by simp
      next
        case (Suc f)
        then have "realpath_walk f lk (if isabs target then [] else cur)
                     (split_on CHR ''/'' target @ rest) = Inr p"
          using "2.prems"(1) n1 n2 Some by simp
        moreover have "\<forall>x \<in> set (if isabs target then [] else cur). normal_part x"
          using "2.prems"(2) by simp
        moreover have "\<forall>x \<in> set (split_on CHR ''/'' target @ rest). CHR ''/'' \<notin> set x"
          using rest by (auto dest: split_on_no_sep)
        ultimately show ?thesis using "2.IH"(4)[OF n1 n2 Some Suc] by blast
      qed
    qed
  qed
qed

lemma path_resolve_normal:
  assumes "path_resolve w q = Inr p" "list_all normal_part (cwd w)"
    "\<forall>c \<in> set (snd q). CHR ''/'' \<notin> set c"
  shows "fst p = ''/'' \<and> (\<forall>c \<in> set (snd p). normal_part c)"
proof -
  obtain comps where w: "realpath_walk MAXSYMLINKS (links w) (if fst q = [] then cwd w else []) (snd q)
      = Inr comps" and p: "p = (''/'', comps)"
    using assms(1) by (auto simp: path_resolve_def split: sum.splits)
  have "\<forall>c \<in> set (if fst q = [] then cwd w else []). normal_part c"
    using assms(2) by (simp add: list_all_iff)
  from realpath_walk_normal[OF w this assms(3)] show ?thesis using p by simp
qed

lemma resolve_under_restriction_shape:
  assumes "resolve_under_restriction v w s = Inr p" "list_all normal_part (cwd w)"
  shows "\<exists>comps. (\<forall>c \<in> set comps. normal_part c) \<and> p = CHR ''/'' # join_sep comps"
proof -
  obtain base q where b: "path_resolve w (Path (root_restriction_directory v)) = Inr base"
    and q: "path_resolve w (path_join base s) = Inr q" and p: "p = path_str q"
    using assms(1)
    by (auto simp: resolve_under_restriction_def split: sum.splits if_splits)
  have bn: "fst base = ''/''" "\<forall>c \<in> set (snd base). normal_part c"
    using path_resolve_normal[OF b assms(2)] Path_parts_clean by (auto simp: clean_part_def)
  have "\<forall>c \<in> set (snd (path_join base s)). CHR ''/'' \<notin> set c"
    using bn(2) Path_parts_clean by (auto simp: path_join_def Let_def normal_part_def clean_part_def)
  from path_resolve_normal[OF q assms(2) this]
  have "fst q = ''/''" "\<forall>c \<in> set (snd q). normal_part c" by simp_all
  then show ?thesis using p by (cases q) (auto simp: path_str_abs)
qed

lemma os_key_abs_normal:
  assumes "\<forall>c \<in> set comps. normal_part c"
  shows "os_key w (CHR ''/'' # join_sep comps) = comps"
proof (cases "comps = []")
  case True
  then show ?thesis by (simp add: os_key_def isabs_def)
next
  case False
  then have "split_on CHR ''/'' (join_sep comps) = comps"
    using assms by (intro split_on_join_sep) (auto simp: normal_part_def)
  then show ?thesis using assms by (simp add: os_key_def isabs_def foldl_norm_step_normal)
qed

lemma dirname_abs_normal:
  assumes "\<forall>c \<in> set comps. normal_part c" "comps \<noteq> []"
  shows "basename (CHR ''/'' # join_sep comps) = last comps"
    and "os_key w (dirname (CHR ''/'' # join_sep comps)) = butlast comps"
proof -
  let ?p = "CHR ''/'' # join_sep comps"
  have "basename ?p = basename (join_sep comps)"
    using basename_append_sep[of "[]" "join_sep comps"] by simp
  also have "\<dots> = last comps"
    using assms by (intro basename_join_sep) (auto simp: normal_part_def)
  finally show b: "basename ?p = last comps" .
  have "normal_part (last comps)" using assms by simp
  then have "os_key w ?p = os_key w (dirname ?p) @ [last comps]"
    using os_key_dirname[of w ?p] b by (simp add: norm_step_normal)
  moreover have "os_key w ?p = butlast comps @ [last comps]"
    using os_key_abs_normal[OF assms(1)] assms(2) by simp
  ultimately show "os_key w (dirname ?p) = butlast comps" by simp
qed

text \<open>
  Claim C7 (the code differs). The TAR loop creates a directory for a directory member and
  passes over the other kinds, but the ZIP loop has no such case: every name of
  \<open>namelist()\<close> is opened for writing. A ZIP archive that lists the directory \<open>sub/\<close> and then
  \<open>sub/a.txt\<close>, extracted into \<open>/r/out\<close>, leaves an empty regular file at \<open>/r/out/sub\<close>; creating
  the parent of the next member then fails, the call reports a failure and \<open>sub/a.txt\<close> is
  never written. The same two members in a TAR archive are extracted as the claim says.
\<close>

theorem zip_directory_entry_written_as_file:
  "snd (decompress_file example_valves zip_dirs_world ''pkg.zip'' ''out'' None)
     = Inr \<lparr>ok = False, action = ''decompress'', subject_type = ''file'',
            payload = [(''error'', VStr ''Failed to decompress file: FileExistsError'')]\<rparr>
   \<and> nodes (fst (decompress_file example_valves zip_dirs_world ''pkg.zip'' ''out'' None))
        [''r'', ''out'', ''sub''] = Some (File (Raw []))
   \<and> nodes (fst (decompress_file example_valves zip_dirs_world ''pkg.zip'' ''out'' None))
        [''r'', ''out'', ''sub'', ''a.txt''] = None
   \<and> snd (decompress_file example_valves tar_dirs_world ''pkg.tar'' ''out'' None)
     = Inr \<lparr>ok = True, action = ''decompress'', subject_type = ''file'',
            payload = [(''message'', VStr ''Decompressed successfully''),
                       (''output'', VStr ''out''),
                       (''extracted_files'', VList [''out/sub/a.txt'']),
                       (''count'', VInt 1)]\<rparr>
   \<and> nodes (fst (decompress_file example_valves tar_dirs_world ''pkg.tar'' ''out'' None))
        [''r'', ''out'', ''sub''] = Some Dir
   \<and> nodes (fst (decompress_file example_valves tar_dirs_world ''pkg.tar'' ''out'' None))
        [''r'', ''out'', ''sub'', ''a.txt''] = Some (File (Raw ''hi''))"
  by (simp add: example_valves_def zip_dirs_world_def zip_dirs_archive_def tar_dirs_world_def
        tar_dirs_archive_def decompress_eval path_eval resolve_eval fs_eval)




section \<open>Restoring and saving versions\<close>



section \<open>Lemmas on canonical paths and on exceptions\<close>

lemma rstrip_sep_nonempty:
  "\<not> list_all (\<lambda>c. c = CHR ''/'') x \<Longrightarrow> rstrip_sep x \<noteq> []"
  by (auto simp: rstrip_sep_def dropWhile_eq_Nil_conv list_all_iff)

lemma dirname_abs_nonempty:
  assumes "isabs p"
  shows "dirname p \<noteq> []"
proof -
  obtain s where p: "p = CHR ''/'' # s" using assms by (cases p) (auto simp: isabs_def)
  have "\<exists>h t. p = h @ CHR ''/'' # t \<and> CHR ''/'' \<notin> set t"
  proof (cases "CHR ''/'' \<in> set s")
    case False
    then have "p = [] @ CHR ''/'' # s \<and> CHR ''/'' \<notin> set s" using p by simp
    then show ?thesis by blast
  next
    case True
    then obtain a t where "s = a @ CHR ''/'' # t" "CHR ''/'' \<notin> set t"
      by (meson split_list_last)
    then have "p = (CHR ''/'' # a) @ CHR ''/'' # t \<and> CHR ''/'' \<notin> set t" using p by simp
    then show ?thesis by blast
  qed
  then obtain h t where ht: "p = h @ CHR ''/'' # t" and t: "CHR ''/'' \<notin> set t" by blast
  have r: "fst (rsplit_sep p) = h @ ''/''"
    unfolding ht using rsplit_sep_last[OF t, of h] by simp
  show ?thesis
  proof (cases "list_all (\<lambda>c. c = CHR ''/'') (h @ ''/'')")
    case True
    then have "dirname p = h @ ''/''" unfolding dirname_def r by (simp add: Let_def)
    then show ?thesis by simp
  next
    case False
    then have "dirname p = rstrip_sep (h @ ''/'')" unfolding dirname_def r by (simp add: Let_def)
    then show ?thesis using rstrip_sep_nonempty[OF False] by simp
  qed
qed

lemma normpath_abs_normal:
  assumes "\<forall>c \<in> set comps. normal_part c"
  shows "normpath (CHR ''/'' # join_sep comps) = CHR ''/'' # join_sep comps"
proof (cases "comps = []")
  case True
  then show ?thesis by (simp add: normpath_def initial_slashes_of_def norm_step_def)
next
  case False
  then have sp: "split_on CHR ''/'' (join_sep comps) = comps"
    using assms by (intro split_on_join_sep) (auto simp: normal_part_def)
  have "\<not> prefix ''/'' (join_sep comps)"
    using False assms join_sep_clean_not_abs[of comps]
    by (auto simp: clean_part_def normal_part_def)
  then have n: "initial_slashes_of (CHR ''/'' # join_sep comps) = 1"
    by (auto simp: initial_slashes_of_def)
  show ?thesis
    using assms by (simp add: normpath_def n sp foldl_norm_step_normal Let_def)
qed

lemma abspath_abs_normal:
  assumes "\<forall>c \<in> set comps. normal_part c"
  shows "abspath w (CHR ''/'' # join_sep comps) = CHR ''/'' # join_sep comps"
  using normpath_abs_normal[OF assms] by (simp add: abspath_def isabs_def)

lemma realpath_walk_error:
  "realpath_walk fuel lk cur rest = Inl e \<Longrightarrow> \<exists>m. e = RuntimeError m"
proof (induction fuel lk cur rest rule: realpath_walk.induct)
  case (1 fuel lk cur)
  then show ?case by simp
next
  case (2 fuel lk cur c rest)
  show ?case
  proof (cases "c = [] \<or> c = ''.''")
    case True
    then show ?thesis using "2.prems" "2.IH"(1) by auto
  next
    case n1: False
    show ?thesis
    proof (cases "c = ''..''")
      case True
      then show ?thesis using "2.prems" "2.IH"(2)[OF n1 True] by simp
    next
      case n2: False
      show ?thesis
      proof (cases "lk (cur @ [c])")
        case None
        then show ?thesis using "2.prems" "2.IH"(3)[OF n1 n2 None] n1 n2 by simp
      next
        case (Some target)
        show ?thesis
        proof (cases fuel)
          case 0
          then show ?thesis using "2.prems" n1 n2 Some by auto
        next
          case (Suc f)
          then show ?thesis using "2.prems" "2.IH"(4)[OF n1 n2 Some Suc] n1 n2 Some by simp
        qed
      qed
    qed
  qed
qed

lemma path_resolve_error: "path_resolve w p = Inl e \<Longrightarrow> \<exists>m. e = RuntimeError m"
  by (auto simp: path_resolve_def split: sum.splits dest: realpath_walk_error)

lemma get_relative_path_error: "get_relative_path v w p = Inl e \<Longrightarrow> \<exists>m. e = RuntimeError m"
  by (auto simp: get_relative_path_def split: sum.splits if_splits dest: path_resolve_error)

lemma mk_result_error: "mk_result v w b a s kw = Inl e \<Longrightarrow> \<exists>m. e = RuntimeError m"
  by (auto simp: mk_result_def split: sum.splits if_splits dest: path_resolve_error)

lemma try_bind_error:
  assumes "try_bind m k = Inl e" "\<And>e. m = Inl e \<Longrightarrow> \<exists>x. e = RuntimeError x"
    "\<And>y e. k y = Inl e \<Longrightarrow> \<exists>x. e = RuntimeError x"
  shows "\<exists>x. e = RuntimeError x"
  using assms by (cases m) (auto simp: try_bind_def)

section \<open>Compression\<close>

lemma write_file_succeeds:
  "node_at w (os_key w s) \<noteq> Some Dir \<Longrightarrow> node_at w (butlast (os_key w s)) = Some Dir \<Longrightarrow>
     write_file w s x = Inr (w\<lparr>nodes := (nodes w)(os_key w s \<mapsto> File x)\<rparr>)"
  by (auto simp: write_file_def Let_def split: option.splits node.splits)

lemma compress_file_pass:
  assumes "compress_file_try v w fn ofn fmt bd = (w', r)"
    and "\<And>e. r = Inl e \<Longrightarrow> \<exists>m. e = RuntimeError m"
  shows "compress_file v w fn ofn fmt bd = (w', r)"
proof (cases r)
  case (Inl e)
  then obtain m where "e = RuntimeError m" using assms(2) by blast
  then show ?thesis using assms(1) Inl by (simp add: compress_file_def compress_file_except_def)
next
  case (Inr x)
  then show ?thesis using assms(1) by (simp add: compress_file_def)
qed

lemma compress_envelope_error:
  "try_bind (get_relative_path v w p) (\<lambda>out. mk_result v w b a s (kw out)) = Inl e
     \<Longrightarrow> \<exists>m. e = RuntimeError m"
  by (rule try_bind_error) (auto dest: get_relative_path_error mk_result_error)

text \<open>
  The output of a compression is ready to be written once its parent directories were
  ensured: its canonical path is no directory and its parent is one.
\<close>

lemma output_ready:
  assumes wf: "list_all normal_part (cwd w)"
    and out: "resolve_under_restriction v w s = Inr output_path"
    and nd: "\<not> os_path_isdir w output_path"
    and ep: "ensure_parent_dir w output_path = Inr w1"
  shows "os_key w output_path \<noteq> []"
    and "node_at w1 (os_key w output_path) \<noteq> Some Dir"
    and "node_at w1 (butlast (os_key w output_path)) = Some Dir"
proof -
  obtain oc where oc: "\<forall>c \<in> set oc. normal_part c" and op: "output_path = CHR ''/'' # join_sep oc"
    using resolve_under_restriction_shape[OF out wf] by blast
  have k: "os_key w output_path = oc" unfolding op using oc by (rule os_key_abs_normal)
  have "node_at w oc \<noteq> Some Dir" using nd k by (simp add: os_path_isdir_def)
  then have ne: "oc \<noteq> []" and nw: "nodes w oc \<noteq> Some Dir"
    by (auto simp: node_at_def split: if_splits)
  show "os_key w output_path \<noteq> []" using k ne by simp
  have kd: "os_key w (dirname output_path) = butlast oc"
    unfolding op using oc ne by (rule dirname_abs_normal(2))
  have "isabs output_path" unfolding op by (simp add: isabs_def)
  then have "dirname output_path \<noteq> []" by (rule dirname_abs_nonempty)
  then have mk: "os_makedirs w (dirname output_path) = Inr w1"
    using ep by (simp add: ensure_parent_dir_def Let_def)
  show "node_at w1 (butlast (os_key w output_path)) = Some Dir"
    using os_makedirs_is_dir[OF mk] kd k by simp
  obtain ns where ns: "makedirs_from (nodes w) [] (butlast oc) = Inr ns" and w1: "w1 = w\<lparr>nodes := ns\<rparr>"
    using mk kd by (auto simp: os_makedirs_def split: sum.splits)
  have "ns oc = nodes w oc"
  proof -
    have "\<not> (\<exists>i. 0 < i \<and> i \<le> length (butlast oc) \<and> oc = [] @ take i (butlast oc))"
    proof
      assume "\<exists>i. 0 < i \<and> i \<le> length (butlast oc) \<and> oc = [] @ take i (butlast oc)"
      then obtain i where "oc = take i (butlast oc)" by auto
      then have "length oc = length (take i (butlast oc))" by simp
      also have "\<dots> \<le> length (butlast oc)" by simp
      finally have "length oc \<le> length (butlast oc)" .
      then show False using ne by (cases oc rule: rev_cases) simp_all
    qed
    then show ?thesis using makedirs_from_changes[OF ns, of oc] by blast
  qed
  then show "node_at w1 (os_key w output_path) \<noteq> Some Dir"
    using nw ne k w1 by (simp add: node_at_def)
qed

end
